theory Spec2Isabelle
  imports Main "HOL-Library.AList" "HOL-Library.Sublist"
begin

section \<open>JavaScript values\<close>

text \<open>
  The input of \<^verbatim>\<open>fromJS\<close> is plain nested data: scalars, arrays and plain objects.
  An object is the list of its own enumerable properties in insertion order; a
  JavaScript object never holds a key twice, which the predicates below state as
  \<open>distinct (map fst kvs)\<close> where a theorem needs it. Numbers are opaque payload for
  this code and are modelled as integers. Properties inherited from a prototype
  (\<^verbatim>\<open>toString\<close>, \<^verbatim>\<open>constructor\<close>) are not modelled: a property read sees own
  properties only.
\<close>

datatype plain =
    PUndefined
  | PNull
  | PBool bool
  | PNum int
  | PStr string
  | PArr "plain list"
  | PObj "(string \<times> plain) list"

text \<open>
  The values the code builds: plain data again, and the two persistent containers of
  the Immutable library, an ordered sequence (\<^verbatim>\<open>List\<close>) and a record instance, which
  carries its diagnostic name and one value for each key of its Template.
\<close>

datatype val =
    VUndefined
  | VNull
  | VBool bool
  | VNum int
  | VStr string
  | VArr "val list"
  | VObj "(string \<times> val) list"
  | VList "val list"
  | VRecord "string option" "(string \<times> val) list"

type_synonym props = "(string \<times> val) list"

text \<open>A plain value seen as a value (no copy is made in JavaScript).\<close>

primrec embed :: "plain \<Rightarrow> val" where
  "embed PUndefined = VUndefined"
| "embed PNull = VNull"
| "embed (PBool b) = VBool b"
| "embed (PNum i) = VNum i"
| "embed (PStr s) = VStr s"
| "embed (PArr xs) = VArr (map embed xs)"
| "embed (PObj kvs) = VObj (map (map_prod id embed) kvs)"

datatype error =
    TypeError
  | Error string

text \<open>
  A call either throws (\<open>Inl\<close>) or returns (\<open>Inr\<close>). The recursive conversion is
  given a bound on the depth of nested calls; \<open>None\<close> says the bound was reached
  before the call returned.
\<close>

type_synonym 'a result = "(error + 'a) option"

subsection \<open>Property access on plain data\<close>

definition digit :: "nat \<Rightarrow> char" where
  "digit d = char_of (48 + d)"

function show_nat :: "nat \<Rightarrow> string" where
  "show_nat n = (if n < 10 then [digit n] else show_nat (n div 10) @ [digit (n mod 10)])"
  by pat_completeness auto
termination
  by (relation "measure id") auto

declare show_nat.simps [simp del]

text \<open>
  The own enumerable properties a value shows to \<^verbatim>\<open>for ... in\<close> and to
  \<^verbatim>\<open>Object.assign\<close>: the properties of an object, the indices of an array or of a
  string, nothing for the other scalars.
\<close>

fun own_props :: "plain \<Rightarrow> (string \<times> plain) list" where
  "own_props (PObj kvs) = kvs"
| "own_props (PArr xs) = zip (map show_nat [0 ..< length xs]) xs"
| "own_props (PStr s) = zip (map show_nat [0 ..< length s]) (map (\<lambda>c. PStr [c]) s)"
| "own_props _ = []"

text \<open>\<^verbatim>\<open>obj[key]\<close>: a TypeError on \<^verbatim>\<open>null\<close> and \<^verbatim>\<open>undefined\<close>, \<^verbatim>\<open>undefined\<close> for a
  property that is not there.\<close>

fun get_prop :: "plain \<Rightarrow> string \<Rightarrow> error + plain" where
  "get_prop PUndefined key = Inl TypeError"
| "get_prop PNull key = Inl TypeError"
| "get_prop obj key =
     Inr (case map_of (own_props obj) key of
            Some v \<Rightarrow> v
          | None \<Rightarrow>
              (case obj of
                 PArr xs \<Rightarrow> if key = ''length'' then PNum (int (length xs)) else PUndefined
               | PStr s \<Rightarrow> if key = ''length'' then PNum (int (length s)) else PUndefined
               | _ \<Rightarrow> PUndefined))"

text \<open>\<^verbatim>\<open>typeof v === 'object'\<close>, which holds of \<^verbatim>\<open>null\<close> and of arrays too.
  \<^verbatim>\<open>Array.isArray(v)\<close> is the pattern \<open>PArr\<close>.\<close>

fun typeof_object :: "plain \<Rightarrow> bool" where
  "typeof_object PNull = True"
| "typeof_object (PArr xs) = True"
| "typeof_object (PObj kvs) = True"
| "typeof_object _ = False"

text \<open>JavaScript truthiness, which decides \<^verbatim>\<open>val ? a : b\<close>.\<close>

fun truthy :: "val \<Rightarrow> bool" where
  "truthy VUndefined = False"
| "truthy VNull = False"
| "truthy (VBool b) = b"
| "truthy (VNum i) = (i \<noteq> 0)"
| "truthy (VStr s) = (s \<noteq> [])"
| "truthy _ = True"

subsection \<open>The library operations the code calls\<close>

text \<open>\<^verbatim>\<open>R.merge({}, obj)\<close> of Ramda: a new object holding the own enumerable properties
  of \<^verbatim>\<open>obj\<close>, the values themselves not copied.\<close>

definition R_merge :: "plain \<Rightarrow> props" where
  "R_merge obj = map (map_prod id embed) (own_props obj)"

text \<open>
  Modelled from the spec: the record constructor of the persistent map engine
  (\<^verbatim>\<open>Record(obj, name)\<close> of Immutable and \<^verbatim>\<open>new ImmutableRecord(val)\<close>), which is not
  part of the sources. Section 4.1: every instance carries exactly the Template's key
  set; with no value, or for a field absent from the value, the field holds the
  Template's default; only top-level presence is checked. The spec describes the
  constructor for an absent value and for a keyed object only; for every other argument
  the model raises a TypeError.
\<close>

definition Record_new :: "props \<Rightarrow> string option \<Rightarrow> val \<Rightarrow> error + val" where
  "Record_new defaults name v =
     (case v of
        VNull \<Rightarrow> Inr (VRecord name defaults)
      | VUndefined \<Rightarrow> Inr (VRecord name defaults)
      | VObj kvs \<Rightarrow>
          Inr (VRecord name
                (map (\<lambda>(k, d). (k, case map_of kvs k of Some x \<Rightarrow> x | None \<Rightarrow> d)) defaults))
      | _ \<Rightarrow> Inl TypeError)"

text \<open>
  Modelled from the spec: \<^verbatim>\<open>toJS\<close>, which the sources only declare
  (\<^verbatim>\<open>TypedRecord.toJS\<close>). Section 4.4: a full conversion back to plain nested data that
  recursively unwraps nested records into plain nested structures.
\<close>

primrec toJS :: "val \<Rightarrow> plain" where
  "toJS VUndefined = PUndefined"
| "toJS VNull = PNull"
| "toJS (VBool b) = PBool b"
| "toJS (VNum i) = PNum i"
| "toJS (VStr s) = PStr s"
| "toJS (VArr xs) = PArr (map toJS xs)"
| "toJS (VObj kvs) = PObj (map (map_prod id toJS) kvs)"
| "toJS (VList xs) = PArr (map toJS xs)"
| "toJS (VRecord name kvs) = PObj (map (map_prod id toJS) kvs)"

section \<open>The record factory\<close>

text \<open>
  \<^verbatim>\<open>makeTypedFactory(obj, name)\<close> returns \<^verbatim>\<open>function TypedFactory(val = null)\<close>. A call
  without an argument passes \<^verbatim>\<open>undefined\<close>, which the default parameter replaces by
  \<^verbatim>\<open>null\<close>.
\<close>

definition makeTypedFactory :: "props \<Rightarrow> string option \<Rightarrow> val \<Rightarrow> error + val" where
  "makeTypedFactory obj name =
     (\<lambda>val. Record_new obj name (if val = VUndefined then VNull else val))"

definition recordify :: "props \<Rightarrow> val \<Rightarrow> string option \<Rightarrow> error + val" where
  "recordify defaultVal val0 name =
     (let val = (if val0 = VUndefined then VNull else val0);
          TypedRecordFactory = makeTypedFactory defaultVal name
      in if truthy val then TypedRecordFactory val else TypedRecordFactory VUndefined)"

section \<open>The deep deserializer\<close>

text \<open>An entry of the registry \<^verbatim>\<open>facTree\<close>: the descriptor, an object from field names to
  factory names or \<^verbatim>\<open>undefined\<close>, and the factory, \<open>None\<close> when the entry holds no
  function there. The registry is an object from factory names to entries.\<close>

record entry =
  descriptor :: "(string \<times> string) list option"
  factory :: "(val \<Rightarrow> error + val) option"

type_synonym factree = "(string \<times> entry) list"

text \<open>\<^verbatim>\<open>array.map(f)\<close> for a callback that may throw: the first throw ends the map.\<close>

primrec array_map :: "('a \<Rightarrow> 'b result) \<Rightarrow> 'a list \<Rightarrow> 'b list result" where
  "array_map f [] = Some (Inr [])"
| "array_map f (x # xs) =
     (case f x of
        None \<Rightarrow> None
      | Some (Inl e) \<Rightarrow> Some (Inl e)
      | Some (Inr y) \<Rightarrow>
          (case array_map f xs of
             None \<Rightarrow> None
           | Some (Inl e) \<Rightarrow> Some (Inl e)
           | Some (Inr ys) \<Rightarrow> Some (Inr (y # ys))))"

text \<open>
  The loop \<^verbatim>\<open>for (const key in descriptor)\<close> of \<^verbatim>\<open>fromJS\<close>, over the descriptor's
  properties in order; \<open>nested\<close> is \<^verbatim>\<open>descriptor[key]\<close>, \<open>call\<close> the recursive call
  \<^verbatim>\<open>fromJS(_, facTree, _)\<close>, and \<open>partialRecord\<close> the working copy, updated by
  \<^verbatim>\<open>partialRecord[key] = ...\<close>.
\<close>

primrec convert_fields ::
  "(plain \<Rightarrow> string \<Rightarrow> val result) \<Rightarrow> plain \<Rightarrow> (string \<times> string) list \<Rightarrow> props \<Rightarrow> props result"
where
  "convert_fields call obj [] partialRecord = Some (Inr partialRecord)"
| "convert_fields call obj (kn # rest) partialRecord =
     (case get_prop obj (fst kn) of
        Inl e \<Rightarrow> Some (Inl e)
      | Inr v \<Rightarrow>
          (case v of
             PArr entries \<Rightarrow>
               (case array_map (\<lambda>entry. call entry (snd kn)) entries of
                  None \<Rightarrow> None
                | Some (Inl e) \<Rightarrow> Some (Inl e)
                | Some (Inr rs) \<Rightarrow>
                    convert_fields call obj rest (AList.update (fst kn) (VList rs) partialRecord))
           | _ \<Rightarrow>
               if typeof_object v then
                 (case call v (snd kn) of
                    None \<Rightarrow> None
                  | Some (Inl e) \<Rightarrow> Some (Inl e)
                  | Some (Inr r) \<Rightarrow>
                      convert_fields call obj rest (AList.update (fst kn) r partialRecord))
               else convert_fields call obj rest partialRecord))"

text \<open>
  \<^verbatim>\<open>fromJS(obj, facTree, facName)\<close>. The first argument bounds the depth of nested
  calls. \<^verbatim>\<open>facTree[facName].factory\<close> is read before the test \<^verbatim>\<open>if (!facRef)\<close>, so a
  name that is no key of \<^verbatim>\<open>facTree\<close> throws a TypeError there.
\<close>

primrec fromJS :: "nat \<Rightarrow> plain \<Rightarrow> factree \<Rightarrow> string \<Rightarrow> val result" where
  "fromJS 0 obj facTree facName = None"
| "fromJS (Suc n) obj facTree facName =
     (case map_of facTree facName of
        None \<Rightarrow> Some (Inl TypeError)
      | Some ent \<Rightarrow>
          (case factory ent of
             None \<Rightarrow> Some (Inl (Error (''No factory found for '' @ facName)))
           | Some facRef \<Rightarrow>
               (case descriptor ent of
                  None \<Rightarrow> Some (facRef (VObj (R_merge obj)))
                | Some d \<Rightarrow>
                    (case convert_fields (\<lambda>v nm. fromJS n v facTree nm) obj d (R_merge obj) of
                       None \<Rightarrow> None
                     | Some (Inl e) \<Rightarrow> Some (Inl e)
                     | Some (Inr partialRecord) \<Rightarrow> Some (facRef (VObj partialRecord))))))"

section \<open>Notions used by the properties\<close>

subsection \<open>Nesting depth and the descriptor graph\<close>

text \<open>The nesting depth of plain data: a scalar has depth 0, an array or an object one
  more than the deepest value it holds.\<close>

fun depth :: "plain \<Rightarrow> nat" where
  "depth (PArr xs) = Suc (foldr max (map depth xs) 0)"
| "depth (PObj kvs) = Suc (foldr max (map (\<lambda>kv. depth (snd kv)) kvs) 0)"
| "depth _ = 0"

text \<open>The descriptor graph of a registry has an edge from a factory name to every
  factory name its descriptor mentions; it is cyclic when some registered name reaches
  itself.\<close>

definition desc_edges :: "factree \<Rightarrow> (string \<times> string) list" where
  "desc_edges facTree =
     concat (map (\<lambda>(a, ent). case descriptor ent of
                                None \<Rightarrow> []
                              | Some d \<Rightarrow> map (\<lambda>kn. (a, snd kn)) d) facTree)"

definition cyclic :: "factree \<Rightarrow> bool" where
  "cyclic facTree =
     list_ex (\<lambda>a. (a, a) \<in> (set (desc_edges facTree))\<^sup>+) (map fst facTree)"

subsection \<open>Turns of the loop that go through\<close>

text \<open>A call returns a record when it neither throws nor runs into the bound. The turn
  of the loop for a property of the descriptor goes through when the property can be
  read and the nested calls the turn makes return records.\<close>

definition returns_record :: "val result \<Rightarrow> bool" where
  "returns_record out = (case out of Some (Inr r) \<Rightarrow> True | _ \<Rightarrow> False)"

definition field_converts :: "(plain \<Rightarrow> string \<Rightarrow> val result) \<Rightarrow> plain \<Rightarrow> string \<times> string \<Rightarrow> bool"
where
  "field_converts call obj kn =
     (case get_prop obj (fst kn) of
        Inl e \<Rightarrow> False
      | Inr v \<Rightarrow>
          (case v of
             PArr es \<Rightarrow> list_all (\<lambda>entry. returns_record (call entry (snd kn))) es
           | _ \<Rightarrow> typeof_object v \<longrightarrow> returns_record (call v (snd kn))))"

subsection \<open>Deep equality and inputs of the descriptor's shape\<close>

fun scalar :: "plain \<Rightarrow> bool" where
  "scalar (PArr xs) = False"
| "scalar (PObj kvs) = False"
| "scalar _ = True"

text \<open>Deep equality of plain data: arrays are compared in order, objects key by key,
  whatever the order of their properties.\<close>

fun deep_equal :: "plain \<Rightarrow> plain \<Rightarrow> bool" where
  "deep_equal (PObj xs) (PObj ys) =
     (set (map fst xs) = set (map fst ys) \<and>
      list_all (\<lambda>kv. case map_of ys (fst kv) of
                       None \<Rightarrow> False
                     | Some w \<Rightarrow> deep_equal (snd kv) w) xs)"
| "deep_equal (PArr xs) (PArr ys) = list_all2 deep_equal xs ys"
| "deep_equal a b = (a = b)"

text \<open>
  A registry whose factories all come from \<^verbatim>\<open>makeTypedFactory\<close> is given by a schema:
  for each factory name the descriptor, the Template and the record name.
\<close>

type_synonym schema =
  "(string \<times> (string \<times> string) list option \<times> props \<times> string option) list"

definition registry_of :: "schema \<Rightarrow> factree" where
  "registry_of sch =
     map (\<lambda>(nm, d, tmpl, rn).
            (nm, \<lparr>descriptor = d, factory = Some (makeTypedFactory tmpl rn)\<rparr>)) sch"

text \<open>
  An input matches the shape of the factory \<open>name\<close> exactly: it is an object with the
  keys of the Template, each descriptor field holds an object, or an array of objects,
  that matches the nested factory, and every other field holds a scalar.
\<close>

fun matches :: "schema \<Rightarrow> string \<Rightarrow> plain \<Rightarrow> bool" where
  "matches sch name (PObj kvs) =
     (case map_of sch name of
        None \<Rightarrow> False
      | Some (d, tmpl, rn) \<Rightarrow>
          distinct (map fst kvs) \<and> set (map fst kvs) = set (map fst tmpl) \<and>
          distinct (map fst (case d of None \<Rightarrow> [] | Some dl \<Rightarrow> dl)) \<and>
          list_all (\<lambda>kv.
            case map_of (case d of None \<Rightarrow> [] | Some dl \<Rightarrow> dl) (fst kv) of
              None \<Rightarrow> scalar (snd kv)
            | Some nested \<Rightarrow>
                (case snd kv of
                   PObj kvs' \<Rightarrow> matches sch nested (snd kv)
                 | PArr es \<Rightarrow> list_all (\<lambda>e. matches sch nested e) es
                 | _ \<Rightarrow> False)) kvs)"
| "matches sch name _ = False"

section \<open>Examples\<close>

text \<open>The registry of the documentation comment of \<^verbatim>\<open>fromJS\<close>: a person has pets
  and a master, who is a person again.\<close>

definition petTemplate :: props where
  "petTemplate = [(''name'', VStr ''''), (''type'', VStr '''')]"

definition personTemplate :: props where
  "personTemplate = [(''name'', VStr ''''), (''pet'', VList []), (''master'', VNull)]"

definition factoryTree :: factree where
  "factoryTree =
     [(''person'',
        \<lparr>descriptor = Some [(''pet'', ''pet''), (''master'', ''person'')],
         factory = Some (makeTypedFactory personTemplate (Some ''Person''))\<rparr>),
      (''pet'',
        \<lparr>descriptor = None, factory = Some (makeTypedFactory petTemplate (Some ''Pet''))\<rparr>)]"

text \<open>The same registry without the entry for pets.\<close>

definition personOnlyTree :: factree where
  "personOnlyTree =
     [(''person'',
        \<lparr>descriptor = Some [(''pet'', ''pet''), (''master'', ''person'')],
         factory = Some (makeTypedFactory personTemplate (Some ''Person''))\<rparr>)]"

text \<open>The example of the spec for arrays: the descriptor \<^verbatim>\<open>{items: 'item'}\<close> and the
  input \<^verbatim>\<open>{items: [{n: 1}, {n: 2}]}\<close>.\<close>

definition cartSchema :: schema where
  "cartSchema =
     [(''cart'', Some [(''items'', ''item'')], [(''items'', VList [])], Some ''Cart''),
      (''item'', None, [(''n'', VNum 0)], Some ''Item'')]"

definition cartInput :: plain where
  "cartInput = PObj [(''items'', PArr [PObj [(''n'', PNum 1)], PObj [(''n'', PNum 2)]])]"

text \<open>The worked example of the spec: a person with a list of pets.\<close>

definition ownerSchema :: schema where
  "ownerSchema =
     [(''person'', Some [(''pets'', ''pet'')], [(''name'', VStr ''''), (''pets'', VArr [])], None),
      (''pet'', None, [(''name'', VStr ''''), (''type'', VStr '''')], None)]"

definition ownerInput :: plain where
  "ownerInput =
     PObj [(''name'', PStr ''Ann''),
           (''pets'', PArr [PObj [(''name'', PStr ''Rex''), (''type'', PStr ''dog'')]])]"

section \<open>The deserializer on a store\<close>

text \<open>
  Whether \<^verbatim>\<open>fromJS\<close> changes its input depends on which objects are shared, which the
  values above do not show. Here objects live in a store: a value holds a reference to
  an object, \<^verbatim>\<open>R.merge\<close> allocates the working copy, whose fields refer to the same
  nested objects as the input, and \<^verbatim>\<open>partialRecord[key] = ...\<close> writes to the store.
  The store is the list of the objects allocated so far, an address is an index.
\<close>

datatype hval =
    HUndefined
  | HNull
  | HBool bool
  | HNum int
  | HStr string
  | HRef nat

datatype hobj =
    HObject "(string \<times> hval) list"
  | HArray "hval list"
  | HList "hval list"
  | HRecord "string option" "(string \<times> hval) list"

type_synonym heap = "hobj list"

definition deref :: "heap \<Rightarrow> nat \<Rightarrow> hobj option" where
  "deref h a = (if a < length h then Some (h ! a) else None)"

definition alloc :: "heap \<Rightarrow> hobj \<Rightarrow> nat \<times> heap" where
  "alloc h ob = (length h, h @ [ob])"

text \<open>\<^verbatim>\<open>target[key] = x\<close> on the object at address \<open>p\<close>.\<close>

definition set_prop :: "heap \<Rightarrow> nat \<Rightarrow> string \<Rightarrow> hval \<Rightarrow> heap" where
  "set_prop h p key x =
     (case deref h p of
        Some (HObject kvs) \<Rightarrow> h[p := HObject (AList.update key x kvs)]
      | _ \<Rightarrow> h)"

text \<open>Own enumerable properties, property read, \<^verbatim>\<open>Array.isArray\<close> and
  \<^verbatim>\<open>typeof v === 'object'\<close> as above. An instance of an Immutable container keeps its
  entries in internal fields, which are not modelled as properties.\<close>

fun own_props_h :: "heap \<Rightarrow> hval \<Rightarrow> (string \<times> hval) list" where
  "own_props_h h (HRef a) =
     (case deref h a of
        Some (HObject kvs) \<Rightarrow> kvs
      | Some (HArray xs) \<Rightarrow> zip (map show_nat [0 ..< length xs]) xs
      | _ \<Rightarrow> [])"
| "own_props_h h (HStr s) = zip (map show_nat [0 ..< length s]) (map (\<lambda>c. HStr [c]) s)"
| "own_props_h h _ = []"

fun isArray_h :: "heap \<Rightarrow> hval \<Rightarrow> bool" where
  "isArray_h h (HRef a) = (case deref h a of Some (HArray xs) \<Rightarrow> True | _ \<Rightarrow> False)"
| "isArray_h h _ = False"

fun elements :: "heap \<Rightarrow> hval \<Rightarrow> hval list" where
  "elements h (HRef a) = (case deref h a of Some (HArray xs) \<Rightarrow> xs | _ \<Rightarrow> [])"
| "elements h _ = []"

fun get_prop_h :: "heap \<Rightarrow> hval \<Rightarrow> string \<Rightarrow> error + hval" where
  "get_prop_h h HUndefined key = Inl TypeError"
| "get_prop_h h HNull key = Inl TypeError"
| "get_prop_h h obj key =
     Inr (case map_of (own_props_h h obj) key of
            Some v \<Rightarrow> v
          | None \<Rightarrow>
              if key = ''length'' \<and> isArray_h h obj then HNum (int (length (elements h obj)))
              else (case obj of
                      HStr s \<Rightarrow> if key = ''length'' then HNum (int (length s)) else HUndefined
                    | _ \<Rightarrow> HUndefined))"

fun typeof_object_h :: "hval \<Rightarrow> bool" where
  "typeof_object_h HNull = True"
| "typeof_object_h (HRef a) = True"
| "typeof_object_h _ = False"

text \<open>\<^verbatim>\<open>R.merge({}, obj)\<close>: a new object with the own properties of \<^verbatim>\<open>obj\<close>; the
  values are copied as they are, so a nested object is shared with \<^verbatim>\<open>obj\<close>.\<close>

definition R_merge_h :: "heap \<Rightarrow> hval \<Rightarrow> nat \<times> heap" where
  "R_merge_h h obj = alloc h (HObject (own_props_h h obj))"

text \<open>
  Modelled from the spec: the record constructor of the persistent map engine on the
  store, as \<open>Record_new\<close> above. It allocates the record and writes nowhere else.
\<close>

definition Record_new_h ::
  "(string \<times> hval) list \<Rightarrow> string option \<Rightarrow> heap \<Rightarrow> hval \<Rightarrow> (error + hval) \<times> heap"
where
  "Record_new_h defaults name h v =
     (case v of
        HNull \<Rightarrow> (let (a, h') = alloc h (HRecord name defaults) in (Inr (HRef a), h'))
      | HUndefined \<Rightarrow> (let (a, h') = alloc h (HRecord name defaults) in (Inr (HRef a), h'))
      | HRef b \<Rightarrow>
          (case deref h b of
             Some (HObject kvs) \<Rightarrow>
               (let (a, h') = alloc h (HRecord name
                       (map (\<lambda>(k, d). (k, case map_of kvs k of Some x \<Rightarrow> x | None \<Rightarrow> d)) defaults))
                in (Inr (HRef a), h'))
           | _ \<Rightarrow> (Inl TypeError, h))
      | _ \<Rightarrow> (Inl TypeError, h))"

definition makeTypedFactory_h ::
  "(string \<times> hval) list \<Rightarrow> string option \<Rightarrow> heap \<Rightarrow> hval \<Rightarrow> (error + hval) \<times> heap"
where
  "makeTypedFactory_h obj name =
     (\<lambda>h val. Record_new_h obj name h (if val = HUndefined then HNull else val))"

record entry_h =
  descriptor_h :: "(string \<times> string) list option"
  factory_h :: "(heap \<Rightarrow> hval \<Rightarrow> (error + hval) \<times> heap) option"

type_synonym factree_h = "(string \<times> entry_h) list"

text \<open>\<^verbatim>\<open>array.map(f)\<close> over the elements the array holds when the map starts; the
  callback here does not write to the array.\<close>

primrec array_map_h ::
  "(heap \<Rightarrow> hval \<Rightarrow> ((error + hval) \<times> heap) option) \<Rightarrow> heap \<Rightarrow> hval list \<Rightarrow>
   ((error + hval list) \<times> heap) option"
where
  "array_map_h f h [] = Some (Inr [], h)"
| "array_map_h f h (x # xs) =
     (case f h x of
        None \<Rightarrow> None
      | Some (Inl e, h1) \<Rightarrow> Some (Inl e, h1)
      | Some (Inr y, h1) \<Rightarrow>
          (case array_map_h f h1 xs of
             None \<Rightarrow> None
           | Some (Inl e, h2) \<Rightarrow> Some (Inl e, h2)
           | Some (Inr ys, h2) \<Rightarrow> Some (Inr (y # ys), h2)))"

text \<open>The loop over the descriptor; \<open>p\<close> is the address of \<^verbatim>\<open>partialRecord\<close>. The
  array branch allocates the array that \<^verbatim>\<open>map\<close> returns and the \<^verbatim>\<open>List\<close> made of it.\<close>

primrec convert_fields_h ::
  "(heap \<Rightarrow> hval \<Rightarrow> string \<Rightarrow> ((error + hval) \<times> heap) option) \<Rightarrow> hval \<Rightarrow> nat \<Rightarrow>
   (string \<times> string) list \<Rightarrow> heap \<Rightarrow> ((error + unit) \<times> heap) option"
where
  "convert_fields_h call obj p [] h = Some (Inr (), h)"
| "convert_fields_h call obj p (kn # rest) h =
     (case get_prop_h h obj (fst kn) of
        Inl e \<Rightarrow> Some (Inl e, h)
      | Inr v \<Rightarrow>
          if isArray_h h v then
            (case array_map_h (\<lambda>h' entry. call h' entry (snd kn)) h (elements h v) of
               None \<Rightarrow> None
             | Some (Inl e, h1) \<Rightarrow> Some (Inl e, h1)
             | Some (Inr rs, h1) \<Rightarrow>
                 (let (arr, h2) = alloc h1 (HArray rs);
                      (lst, h3) = alloc h2 (HList rs)
                  in convert_fields_h call obj p rest (set_prop h3 p (fst kn) (HRef lst))))
          else if typeof_object_h v then
            (case call h v (snd kn) of
               None \<Rightarrow> None
             | Some (Inl e, h1) \<Rightarrow> Some (Inl e, h1)
             | Some (Inr r, h1) \<Rightarrow>
                 convert_fields_h call obj p rest (set_prop h1 p (fst kn) r))
          else convert_fields_h call obj p rest h)"

primrec fromJS_h ::
  "nat \<Rightarrow> heap \<Rightarrow> hval \<Rightarrow> factree_h \<Rightarrow> string \<Rightarrow> ((error + hval) \<times> heap) option"
where
  "fromJS_h 0 h obj facTree facName = None"
| "fromJS_h (Suc n) h obj facTree facName =
     (case map_of facTree facName of
        None \<Rightarrow> Some (Inl TypeError, h)
      | Some ent \<Rightarrow>
          (case factory_h ent of
             None \<Rightarrow> Some (Inl (Error (''No factory found for '' @ facName)), h)
           | Some facRef \<Rightarrow>
               (let (p, h1) = R_merge_h h obj in
                case descriptor_h ent of
                  None \<Rightarrow> Some (facRef h1 (HRef p))
                | Some d \<Rightarrow>
                    (case convert_fields_h (\<lambda>h' v nm. fromJS_h n h' v facTree nm) obj p d h1 of
                       None \<Rightarrow> None
                     | Some (Inl e, h2) \<Rightarrow> Some (Inl e, h2)
                     | Some (Inr u, h2) \<Rightarrow> Some (facRef h2 (HRef p))))))"

text \<open>The plain data a value of the store stands for, read down to a given depth
  (\<open>None\<close> beyond it, and for what is not plain data).\<close>

primrec read_plain :: "nat \<Rightarrow> heap \<Rightarrow> hval \<Rightarrow> plain option" where
  "read_plain 0 h v = None"
| "read_plain (Suc k) h v =
     (case v of
        HUndefined \<Rightarrow> Some PUndefined
      | HNull \<Rightarrow> Some PNull
      | HBool b \<Rightarrow> Some (PBool b)
      | HNum i \<Rightarrow> Some (PNum i)
      | HStr s \<Rightarrow> Some (PStr s)
      | HRef a \<Rightarrow>
          (case deref h a of
             Some (HObject kvs) \<Rightarrow>
               map_option PObj
                 (those (map (\<lambda>kv. map_option (Pair (fst kv)) (read_plain k h (snd kv))) kvs))
           | Some (HArray xs) \<Rightarrow> map_option PArr (those (map (read_plain k h) xs))
           | _ \<Rightarrow> None))"

text \<open>A factory keeps the store when it only allocates: every object that was there is
  there unchanged afterwards. The factories of \<^verbatim>\<open>makeTypedFactory\<close> do.\<close>

definition keeps_store :: "(heap \<Rightarrow> hval \<Rightarrow> (error + hval) \<times> heap) \<Rightarrow> bool" where
  "keeps_store fac = (\<forall>h v. prefix h (snd (fac h v)))"

text \<open>The store of the example: the person Ann at address 2, whose pets are the array
  at address 1, which holds the pet Rex, the object at address 0.\<close>

definition annHeap :: heap where
  "annHeap =
     [HObject [(''name'', HStr ''Rex''), (''type'', HStr ''dog'')],
      HArray [HRef 0],
      HObject [(''name'', HStr ''Ann''), (''pet'', HRef 1)]]"

definition factoryTree_h :: factree_h where
  "factoryTree_h =
     [(''person'',
        \<lparr>descriptor_h = Some [(''pet'', ''pet''), (''master'', ''person'')],
         factory_h = Some (makeTypedFactory_h
           [(''name'', HStr ''''), (''pet'', HNull), (''master'', HNull)] (Some ''Person''))\<rparr>),
      (''pet'',
        \<lparr>descriptor_h = None,
         factory_h = Some (makeTypedFactory_h
           [(''name'', HStr ''''), (''type'', HStr '''')] (Some ''Pet''))\<rparr>)]"

text \<open>The value a result in the store stands for, and the registry of the example
  on values.\<close>

primrec read_val :: "nat \<Rightarrow> heap \<Rightarrow> hval \<Rightarrow> val option" where
  "read_val 0 h v = None"
| "read_val (Suc k) h v =
     (case v of
        HUndefined \<Rightarrow> Some VUndefined
      | HNull \<Rightarrow> Some VNull
      | HBool b \<Rightarrow> Some (VBool b)
      | HNum i \<Rightarrow> Some (VNum i)
      | HStr s \<Rightarrow> Some (VStr s)
      | HRef a \<Rightarrow>
          (case deref h a of
             None \<Rightarrow> None
           | Some (HObject kvs) \<Rightarrow>
               map_option VObj
                 (those (map (\<lambda>kv. map_option (Pair (fst kv)) (read_val k h (snd kv))) kvs))
           | Some (HArray xs) \<Rightarrow> map_option VArr (those (map (read_val k h) xs))
           | Some (HList xs) \<Rightarrow> map_option VList (those (map (read_val k h) xs))
           | Some (HRecord name kvs) \<Rightarrow>
               map_option (VRecord name)
                 (those (map (\<lambda>kv. map_option (Pair (fst kv)) (read_val k h (snd kv))) kvs))))"

definition annTree :: factree where
  "annTree =
     [(''person'',
        \<lparr>descriptor = Some [(''pet'', ''pet''), (''master'', ''person'')],
         factory = Some (makeTypedFactory
           [(''name'', VStr ''''), (''pet'', VNull), (''master'', VNull)] (Some ''Person''))\<rparr>),
      (''pet'',
        \<lparr>descriptor = None,
         factory = Some (makeTypedFactory
           [(''name'', VStr ''''), (''type'', VStr '''')] (Some ''Pet''))\<rparr>)]"

text \<open>A store with a cycle: a person who is his own master.\<close>

definition selfHeap :: heap where
  "selfHeap = [HObject [(''name'', HStr ''Ann''), (''master'', HRef 0)]]"

section \<open>Properties of the record factory\<close>

lemma map_of_map_snd:
  "map_of (map (\<lambda>(k, d). (k, f k d)) E) k = map_option (f k) (map_of E k)"
  by (induction E) auto

lemma Record_new_absent [simp]:
  "Record_new E name VNull = Inr (VRecord name E)"
  "Record_new E name VUndefined = Inr (VRecord name E)"
  by (simp_all add: Record_new_def)

text \<open>
  Claim C8. The constructor returned by \<^verbatim>\<open>makeTypedFactory(E)\<close>, called with no argument
  (or with \<^verbatim>\<open>null\<close>), yields the record of E's defaults. Called with an object, it
  yields a record with E's keys in which a field absent from the object holds E's
  default, and a field present in the object holds the object's value as it is (only
  top-level presence is looked at).
\<close>

theorem makeTypedFactory_defaults:
  "makeTypedFactory E name VUndefined = Inr (VRecord name E) \<and>
   makeTypedFactory E name VNull = Inr (VRecord name E) \<and>
   (\<exists>fields. makeTypedFactory E name (VObj kvs) = Inr (VRecord name fields) \<and>
      map fst fields = map fst E \<and>
      (\<forall>k. map_of kvs k = None \<longrightarrow> map_of fields k = map_of E k) \<and>
      (\<forall>k x. k \<in> fst ` set E \<longrightarrow> map_of kvs k = Some x \<longrightarrow> map_of fields k = Some x))"
proof -
  let ?fields = "map (\<lambda>(k, d). (k, case map_of kvs k of Some x \<Rightarrow> x | None \<Rightarrow> d)) E"
  have 1: "makeTypedFactory E name (VObj kvs) = Inr (VRecord name ?fields)"
    by (simp add: makeTypedFactory_def Record_new_def)
  have 2: "map fst ?fields = map fst E"
    by (induction E) auto
  have 3: "map_of ?fields k = map_of E k" if "map_of kvs k = None" for k
    using that by (simp add: map_of_map_snd map_option.identity option.map_ident)
  have 4: "map_of ?fields k = Some x" if "k \<in> fst ` set E" "map_of kvs k = Some x" for k x
  proof -
    from that(1) obtain d where "map_of E k = Some d"
      by (metis domD dom_map_of_conv_image_fst)
    with that(2) show ?thesis by (simp add: map_of_map_snd)
  qed
  show ?thesis
    using 1 2 3 4 by (auto simp: makeTypedFactory_def)
qed

theorem makeTypedFactory_defaults_witness:
  "makeTypedFactory petTemplate None (VObj [(''name'', VStr ''Rex'')]) =
     Inr (VRecord None [(''name'', VStr ''Rex''), (''type'', VStr '''')])"
  using makeTypedFactory_defaults [of petTemplate None "[(''name'', VStr ''Rex'')]"]
  by (auto simp: petTemplate_def makeTypedFactory_def Record_new_def)

lemma Record_new_template:
  assumes "distinct (map fst E)"
  shows "Record_new E name (VObj E) = Inr (VRecord name E)"
proof -
  have "(case map_of E k of Some x \<Rightarrow> x | None \<Rightarrow> d) = d" if "(k, d) \<in> set E" for k d
    using assms that by simp
  then have "map (\<lambda>(k, d). (k, case map_of E k of Some x \<Rightarrow> x | None \<Rightarrow> d)) E = E"
    by (intro map_idI) auto
  then show ?thesis by (simp add: Record_new_def)
qed

text \<open>
  Claim C9. For a Template E (an object, so its keys are distinct),
  \<^verbatim>\<open>recordify(E, null)\<close> and \<^verbatim>\<open>recordify(E, E)\<close> are the same record.
\<close>

theorem recordify_template_value:
  assumes "distinct (map fst E)"
  shows "recordify E VNull name = recordify E (VObj E) name"
  using Record_new_template [OF assms]
  by (simp add: recordify_def makeTypedFactory_def)

theorem recordify_template_value_witness:
  "distinct (map fst petTemplate) \<and>
   recordify petTemplate VNull None = recordify petTemplate (VObj petTemplate) None \<and>
   recordify petTemplate (VObj petTemplate) None = Inr (VRecord None petTemplate)"
proof -
  have d: "distinct (map fst petTemplate)" by (simp add: petTemplate_def)
  have "recordify petTemplate VNull None = Inr (VRecord None petTemplate)"
    by (simp add: recordify_def makeTypedFactory_def)
  with d recordify_template_value [OF d, of None] show ?thesis by simp
qed

text \<open>
  Claim C10. \<^verbatim>\<open>recordify\<close> chooses between the value and the defaults by the
  truthiness of \<^verbatim>\<open>val\<close>: for every falsy value, \<^verbatim>\<open>0\<close>, the empty string and
  \<^verbatim>\<open>false\<close> among them, the value is ignored and the result is the record of the
  defaults, the same as \<^verbatim>\<open>recordify(defaultVal)\<close>.
\<close>

theorem recordify_falsy:
  assumes "\<not> truthy val"
  shows "recordify defaultVal val name = recordify defaultVal VUndefined name \<and>
         recordify defaultVal val name = Inr (VRecord name defaultVal)"
  using assms by (simp add: recordify_def makeTypedFactory_def)

theorem recordify_falsy_witness:
  "\<not> truthy (VNum 0) \<and> \<not> truthy (VStr '''') \<and> \<not> truthy (VBool False) \<and>
   recordify petTemplate (VNum 0) None = Inr (VRecord None petTemplate) \<and>
   recordify petTemplate (VStr '''') None = Inr (VRecord None petTemplate) \<and>
   recordify petTemplate (VBool False) None = Inr (VRecord None petTemplate)"
proof -
  have n: "\<not> truthy (VNum 0)" and s: "\<not> truthy (VStr '''')" and b: "\<not> truthy (VBool False)"
    by simp_all
  show ?thesis
    using n s b recordify_falsy [OF n, of petTemplate None]
      recordify_falsy [OF s, of petTemplate None] recordify_falsy [OF b, of petTemplate None]
    by blast
qed

section \<open>Properties of the deserializer\<close>

lemma fromJS_unregistered:
  "map_of facTree facName = None \<Longrightarrow> fromJS (Suc n) obj facTree facName = Some (Inl TypeError)"
  by simp

lemma fromJS_no_factory:
  "map_of facTree facName = Some ent \<Longrightarrow> factory ent = None \<Longrightarrow>
   fromJS (Suc n) obj facTree facName = Some (Inl (Error (''No factory found for '' @ facName)))"
  by simp

text \<open>
  Claim C1. A factory name that is no key of the registry does not reach the test that
  throws the error \<^verbatim>\<open>No factory found for ...\<close>: reading \<^verbatim>\<open>facTree[facName].factory\<close>
  throws a TypeError first, at the root call and in a nested call alike. No record is
  returned.
\<close>

theorem fromJS_unregistered_name_TypeError:
  "fromJS 1 (PObj [(''name'', PStr ''Ann'')]) factoryTree ''unknownName'' = Some (Inl TypeError) \<and>
   fromJS 1 (PObj [(''name'', PStr ''Ann'')]) factoryTree ''unknownName''
     \<noteq> Some (Inl (Error (''No factory found for '' @ ''unknownName''))) \<and>
   fromJS 2 (PObj [(''name'', PStr ''Ann''), (''pet'', PArr [PObj [(''name'', PStr ''Rex'')]])])
       personOnlyTree ''person'' = Some (Inl TypeError)"
  by (simp add: factoryTree_def personOnlyTree_def numeral_2_eq_2 R_merge_def)

text \<open>
  Claim C2. A descriptor field that holds \<^verbatim>\<open>null\<close> is not left untouched:
  \<^verbatim>\<open>typeof null\<close> is \<^verbatim>\<open>'object'\<close>, so the code recurses into it. With the registry of
  the documentation comment, \<^verbatim>\<open>{name: 'Ann', pet: null}\<close> yields a person whose
  \<^verbatim>\<open>pet\<close> is a record of the pet defaults, and \<^verbatim>\<open>{name: 'Ann', master: null}\<close>
  throws a TypeError, from reading a property of \<^verbatim>\<open>null\<close> in the nested call.
\<close>

theorem fromJS_null_field_recursion:
  "fromJS 2 (PObj [(''name'', PStr ''Ann''), (''pet'', PNull)]) factoryTree ''person'' =
     Some (Inr (VRecord (Some ''Person'')
       [(''name'', VStr ''Ann''),
        (''pet'', VRecord (Some ''Pet'') petTemplate),
        (''master'', VNull)])) \<and>
   fromJS 2 (PObj [(''name'', PStr ''Ann''), (''master'', PNull)]) factoryTree ''person'' =
     Some (Inl TypeError)"
  by (simp add: factoryTree_def numeral_2_eq_2 R_merge_def makeTypedFactory_def Record_new_def
      personTemplate_def petTemplate_def)

subsection \<open>Termination\<close>

lemma foldr_max_ge: "x \<in> set xs \<Longrightarrow> x \<le> foldr max xs (0::nat)"
  by (induction xs) (auto simp: max_def)

lemma depth_elem: "e \<in> set es \<Longrightarrow> depth e < depth (PArr es)"
  using foldr_max_ge [of "depth e" "map depth es"] by (simp add: less_Suc_eq_le)

lemma depth_field: "(k, v) \<in> set kvs \<Longrightarrow> depth v < depth (PObj kvs)"
  using foldr_max_ge [of "depth v" "map (\<lambda>kv. depth (snd kv)) kvs"]
  by (force simp: less_Suc_eq_le)

lemma get_prop_depth:
  assumes "get_prop obj key = Inr v" "typeof_object v"
  shows "depth v < depth obj"
proof (cases obj)
  case (PObj kvs)
  with assms obtain "map_of kvs key = Some v"
    by (auto split: option.splits)
  then have "(key, v) \<in> set kvs" by (rule map_of_SomeD)
  with PObj show ?thesis by (simp only: depth_field)
next
  case (PArr xs)
  with assms have "map_of (zip (map show_nat [0 ..< length xs]) xs) key = Some v"
    by (auto split: option.splits if_splits)
  then have "v \<in> set xs" by (meson map_of_SomeD set_zip_rightD)
  with PArr show ?thesis by (simp only: depth_elem)
next
  case (PStr s)
  with assms show ?thesis
    by (auto split: option.splits if_splits dest!: map_of_SomeD set_zip_rightD)
qed (use assms in auto)

lemma array_map_returns:
  "(\<And>x. x \<in> set xs \<Longrightarrow> f x \<noteq> None) \<Longrightarrow> array_map f xs \<noteq> None"
  by (induction xs) (auto split: option.splits sum.splits)

lemma convert_fields_returns:
  assumes "\<And>v nm. depth v < depth obj \<Longrightarrow> call v nm \<noteq> None"
  shows "convert_fields call obj d pr \<noteq> None"
proof (induction d arbitrary: pr)
  case Nil
  show ?case by simp
next
  case (Cons kn rest)
  show ?case
  proof (cases "get_prop obj (fst kn)")
    case (Inl e)
    then show ?thesis by simp
  next
    case (Inr v)
    show ?thesis
    proof (cases "typeof_object v")
      case False
      with Inr Cons.IH show ?thesis by (cases v) simp_all
    next
      case True
      with Inr have dv: "depth v < depth obj" by (rule get_prop_depth)
      show ?thesis
      proof (cases v)
        case (PArr es)
        have "array_map (\<lambda>entry. call entry (snd kn)) es \<noteq> None"
        proof (rule array_map_returns)
          fix x assume "x \<in> set es"
          then have "depth x < depth v" unfolding PArr by (rule depth_elem)
          with dv show "call x (snd kn) \<noteq> None" by (intro assms) simp
        qed
        with Inr PArr Cons.IH show ?thesis
          by (auto split: option.splits sum.splits)
      next
        case PNull
        from assms [OF dv] have "call v (snd kn) \<noteq> None" .
        with Inr PNull Cons.IH show ?thesis
          by (auto split: option.splits sum.splits)
      next
        case (PObj kvs)
        from assms [OF dv] have "call v (snd kn) \<noteq> None" .
        with Inr PObj Cons.IH show ?thesis
          by (auto split: option.splits sum.splits)
      qed (use True in simp_all)
    qed
  qed
qed

lemma fromJS_returns:
  "depth obj < n \<Longrightarrow> fromJS n obj facTree facName \<noteq> None"
proof (induction n arbitrary: obj facName)
  case 0
  then show ?case by simp
next
  case (Suc n)
  have "convert_fields (\<lambda>v nm. fromJS n v facTree nm) obj d pr \<noteq> None" for d pr
  proof (rule convert_fields_returns)
    fix v nm assume "depth v < depth obj"
    with Suc.prems have "depth v < n" by simp
    then show "fromJS n v facTree nm \<noteq> None" by (rule Suc.IH)
  qed
  note cf = this
  show ?case
  proof (cases "map_of facTree facName")
    case None
    then show ?thesis by simp
  next
    case ent: (Some ent)
    show ?thesis
    proof (cases "factory ent")
      case None
      with ent show ?thesis by simp
    next
      case fac: (Some facRef)
      show ?thesis
      proof (cases "descriptor ent")
        case None
        with ent fac show ?thesis by simp
      next
        case (Some d)
        from cf [of d "R_merge obj"] obtain y
          where "convert_fields (\<lambda>v nm. fromJS n v facTree nm) obj d (R_merge obj) = Some y"
          by auto
        with ent fac Some show ?thesis by (cases y) simp_all
      qed
    qed
  qed
qed

lemma cyclic_factoryTree: "cyclic factoryTree"
proof -
  have "(''person'', ''person'') \<in> set (desc_edges factoryTree)"
    by (simp add: desc_edges_def factoryTree_def)
  then have "(''person'', ''person'') \<in> (set (desc_edges factoryTree))\<^sup>+" by (rule r_into_trancl)
  then show ?thesis by (simp add: cyclic_def factoryTree_def)
qed

lemma array_map_mono:
  assumes "\<And>x r. x \<in> set xs \<Longrightarrow> f x = Some r \<Longrightarrow> g x = Some r"
  shows "array_map f xs = Some rs \<Longrightarrow> array_map g xs = Some rs"
  using assms
proof (induction xs arbitrary: rs)
  case Nil
  then show ?case by simp
next
  case (Cons x xs)
  show ?case
  proof (cases "f x")
    case None
    with Cons.prems(1) show ?thesis by simp
  next
    case (Some y)
    then have g: "g x = Some y" by (simp add: Cons.prems(2))
    show ?thesis
    proof (cases y)
      case (Inl e)
      with Some g Cons.prems(1) show ?thesis by simp
    next
      case (Inr v)
      from Some Inr Cons.prems(1) obtain t where t: "array_map f xs = Some t"
        by (auto split: option.splits)
      then have "array_map g xs = Some t"
        by (rule Cons.IH) (simp add: Cons.prems(2))
      with Some g Inr t Cons.prems(1) show ?thesis by simp
    qed
  qed
qed

lemma convert_fields_mono:
  assumes "\<And>v nm r. call v nm = Some r \<Longrightarrow> call' v nm = Some r"
  shows "convert_fields call obj d pr = Some res \<Longrightarrow> convert_fields call' obj d pr = Some res"
proof (induction d arbitrary: pr)
  case Nil
  then show ?case by simp
next
  case (Cons kn rest)
  show ?case
  proof (cases "get_prop obj (fst kn)")
    case (Inl e)
    with Cons.prems show ?thesis by simp
  next
    case (Inr v)
    show ?thesis
    proof (cases "\<exists>es. v = PArr es")
      case True
      then obtain es where v: "v = PArr es" ..
      from Cons.prems Inr v obtain t
        where t: "array_map (\<lambda>entry. call entry (snd kn)) es = Some t"
        by (auto split: option.splits)
      then have t': "array_map (\<lambda>entry. call' entry (snd kn)) es = Some t"
        by (rule array_map_mono [rotated]) (rule assms)
      show ?thesis
      proof (cases t)
        case (Inl e)
        with Cons.prems Inr v t t' show ?thesis by simp
      next
        case (Inr rs)
        with Cons.prems \<open>get_prop obj (fst kn) = Inr v\<close> v t t' Cons.IH show ?thesis by simp
      qed
    next
      case notarr: False
      show ?thesis
      proof (cases "typeof_object v")
        case False
        with Cons.prems Inr Cons.IH show ?thesis by (cases v) simp_all
      next
        case True
        with Cons.prems Inr notarr obtain t where t: "call v (snd kn) = Some t"
          by (cases v) (auto split: option.splits)
        then have t': "call' v (snd kn) = Some t" by (rule assms)
        show ?thesis
        proof (cases t)
          case (Inl e)
          with Cons.prems Inr True notarr t t' show ?thesis by (cases v) simp_all
        next
          case r: (Inr r)
          with Cons.prems Inr True notarr t t' Cons.IH show ?thesis by (cases v) simp_all
        qed
      qed
    qed
  qed
qed

lemma fromJS_Suc_desc:
  assumes "map_of facTree facName = Some ent" "factory ent = Some facRef" "descriptor ent = Some d"
  shows "fromJS (Suc n) obj facTree facName =
     (case convert_fields (\<lambda>v nm. fromJS n v facTree nm) obj d (R_merge obj) of
        None \<Rightarrow> None
      | Some (Inl e) \<Rightarrow> Some (Inl e)
      | Some (Inr partialRecord) \<Rightarrow> Some (facRef (VObj partialRecord)))"
  using assms by simp

lemma fromJS_Suc_mono:
  "fromJS n obj facTree facName = Some r \<Longrightarrow> fromJS (Suc n) obj facTree facName = Some r"
proof (induction n arbitrary: obj facName r)
  case 0
  then show ?case by simp
next
  case (Suc n)
  have step: "convert_fields (\<lambda>v nm. fromJS (Suc n) v facTree nm) obj d pr = Some res"
    if "convert_fields (\<lambda>v nm. fromJS n v facTree nm) obj d pr = Some res" for d pr res
    using that by (rule convert_fields_mono [rotated]) (rule Suc.IH)
  show ?case
  proof (cases "map_of facTree facName")
    case None
    with Suc.prems show ?thesis by simp
  next
    case ent: (Some ent)
    show ?thesis
    proof (cases "factory ent")
      case None
      with ent Suc.prems show ?thesis by simp
    next
      case fac: (Some facRef)
      show ?thesis
      proof (cases "descriptor ent")
        case None
        with ent fac Suc.prems show ?thesis by simp
      next
        case (Some d)
        with ent fac Suc.prems obtain res
          where res: "convert_fields (\<lambda>v nm. fromJS n v facTree nm) obj d (R_merge obj) = Some res"
          by (auto split: option.splits)
        from Suc.prems show ?thesis
          by (simp only: fromJS_Suc_desc [OF ent fac Some] res step [OF res])
      qed
    qed
  qed
qed

lemma fromJS_mono:
  "fromJS n obj facTree facName = Some r \<Longrightarrow> n \<le> m \<Longrightarrow> fromJS m obj facTree facName = Some r"
  by (induction m) (auto simp: le_Suc_eq dest: fromJS_Suc_mono simp del: fromJS.simps)

text \<open>
  Claim C3 fails: with the registry of the documentation comment, whose descriptor graph
  is cyclic (the master of a person is a person), \<^verbatim>\<open>fromJS\<close> returns on
  \<^verbatim>\<open>{name: 'Ann', master: {name: 'Bob'}}\<close> within two nested calls.
\<close>

theorem fromJS_cyclic_registry_returns:
  "cyclic factoryTree \<and>
   fromJS 2 (PObj [(''name'', PStr ''Ann''), (''master'', PObj [(''name'', PStr ''Bob'')])])
       factoryTree ''person'' =
     Some (Inr (VRecord (Some ''Person'')
       [(''name'', VStr ''Ann''), (''pet'', VList []),
        (''master'', VRecord (Some ''Person'')
           [(''name'', VStr ''Bob''), (''pet'', VList []), (''master'', VNull)])]))"
proof -
  have "fromJS 2 (PObj [(''name'', PStr ''Ann''), (''master'', PObj [(''name'', PStr ''Bob'')])])
       factoryTree ''person'' =
     Some (Inr (VRecord (Some ''Person'')
       [(''name'', VStr ''Ann''), (''pet'', VList []),
        (''master'', VRecord (Some ''Person'')
           [(''name'', VStr ''Bob''), (''pet'', VList []), (''master'', VNull)])]))"
    by (simp add: factoryTree_def numeral_2_eq_2 R_merge_def makeTypedFactory_def Record_new_def
        personTemplate_def)
  with cyclic_factoryTree show ?thesis by simp
qed

text \<open>
  Claim C3, amended. For every registry, cyclic or not, and every plain input,
  \<^verbatim>\<open>fromJS\<close> returns or throws: the recursion follows the input, and its nested calls
  are at most one deeper than the input is nested. A larger bound gives the same
  outcome.
\<close>

theorem fromJS_terminates:
  "\<exists>r. fromJS (Suc (depth obj)) obj facTree facName = Some r \<and>
       (\<forall>n. depth obj < n \<longrightarrow> fromJS n obj facTree facName = Some r)"
proof -
  have "fromJS (Suc (depth obj)) obj facTree facName \<noteq> None"
    by (rule fromJS_returns) simp
  then obtain r where r: "fromJS (Suc (depth obj)) obj facTree facName = Some r" by auto
  have "fromJS n obj facTree facName = Some r" if "depth obj < n" for n
    using r by (rule fromJS_mono) (use that in simp)
  with r show ?thesis by blast
qed

theorem fromJS_terminates_witness:
  "cyclic factoryTree \<and> depth (PObj [(''name'', PStr ''Ann''), (''master'', PNull)]) < 5 \<and>
   fromJS 5 (PObj [(''name'', PStr ''Ann''), (''master'', PNull)]) factoryTree ''person'' =
     Some (Inl TypeError)"
proof -
  let ?obj = "PObj [(''name'', PStr ''Ann''), (''master'', PNull)]"
  have d: "depth ?obj = 1" by simp
  have "fromJS (Suc (depth ?obj)) ?obj factoryTree ''person'' = Some (Inl TypeError)"
    unfolding d
    by (simp add: factoryTree_def R_merge_def makeTypedFactory_def Record_new_def
        personTemplate_def)
  with fromJS_terminates [of ?obj factoryTree "''person''"] cyclic_factoryTree d
  show ?thesis by auto
qed

subsection \<open>The working copy\<close>

lemma map_of_update:
  "map_of (AList.update k v al) k' = (if k' = k then Some v else map_of al k')"
  by (simp add: update_conv')

lemma array_map_Inr:
  "array_map f xs = Some (Inr rs) \<Longrightarrow> list_all2 (\<lambda>x r. f x = Some (Inr r)) xs rs"
  by (induction xs arbitrary: rs) (auto split: option.splits sum.splits)

lemma array_map_Inr_iff:
  "array_map f xs = Some (Inr rs) \<longleftrightarrow> list_all2 (\<lambda>x r. f x = Some (Inr r)) xs rs"
proof
  show "list_all2 (\<lambda>x r. f x = Some (Inr r)) xs rs \<Longrightarrow> array_map f xs = Some (Inr rs)"
    by (induction xs rs rule: list_all2_induct) auto
qed (rule array_map_Inr)

text \<open>One turn of the loop: what it does to the working copy.\<close>

lemma convert_fields_Cons_Inr:
  assumes "convert_fields call obj (kn # rest) pr0 = Some (Inr pr)"
  obtains v pr1 where "get_prop obj (fst kn) = Inr v"
    and "convert_fields call obj rest pr1 = Some (Inr pr)"
    and "case v of
           PArr es \<Rightarrow> \<exists>rs. array_map (\<lambda>entry. call entry (snd kn)) es = Some (Inr rs) \<and>
                        pr1 = AList.update (fst kn) (VList rs) pr0
         | _ \<Rightarrow> if typeof_object v
                then \<exists>r. call v (snd kn) = Some (Inr r) \<and> pr1 = AList.update (fst kn) r pr0
                else pr1 = pr0"
proof (cases "get_prop obj (fst kn)")
  case (Inl e)
  with assms show ?thesis by simp
next
  case (Inr v)
  with assms that [of v] show ?thesis
    by (cases v) (auto split: option.splits sum.splits)
qed

lemma convert_fields_frame:
  "convert_fields call obj d pr0 = Some (Inr pr) \<Longrightarrow> k \<notin> fst ` set d \<Longrightarrow>
   map_of pr k = map_of pr0 k"
proof (induction d arbitrary: pr0)
  case Nil
  then show ?case by simp
next
  case (Cons kn rest)
  from Cons.prems(1) obtain v pr1 where "convert_fields call obj rest pr1 = Some (Inr pr)"
    and pr1: "case v of
           PArr es \<Rightarrow> \<exists>rs. array_map (\<lambda>entry. call entry (snd kn)) es = Some (Inr rs) \<and>
                        pr1 = AList.update (fst kn) (VList rs) pr0
         | _ \<Rightarrow> if typeof_object v
                then \<exists>r. call v (snd kn) = Some (Inr r) \<and> pr1 = AList.update (fst kn) r pr0
                else pr1 = pr0"
    by (rule convert_fields_Cons_Inr)
  with Cons.IH Cons.prems(2) have "map_of pr k = map_of pr1 k" by simp
  moreover from pr1 Cons.prems(2) have "map_of pr1 k = map_of pr0 k"
    by (cases v) (auto simp: map_of_update split: if_splits)
  ultimately show ?case by simp
qed

lemma convert_fields_untouched:
  "convert_fields call obj d pr0 = Some (Inr pr) \<Longrightarrow> get_prop obj k = Inr v \<Longrightarrow>
   \<not> typeof_object v \<Longrightarrow> map_of pr k = map_of pr0 k"
proof (induction d arbitrary: pr0)
  case Nil
  then show ?case by simp
next
  case (Cons kn rest)
  from Cons.prems(1) obtain w pr1 where w: "get_prop obj (fst kn) = Inr w"
    and rest: "convert_fields call obj rest pr1 = Some (Inr pr)"
    and pr1: "case w of
           PArr es \<Rightarrow> \<exists>rs. array_map (\<lambda>entry. call entry (snd kn)) es = Some (Inr rs) \<and>
                        pr1 = AList.update (fst kn) (VList rs) pr0
         | _ \<Rightarrow> if typeof_object w
                then \<exists>r. call w (snd kn) = Some (Inr r) \<and> pr1 = AList.update (fst kn) r pr0
                else pr1 = pr0"
    by (rule convert_fields_Cons_Inr)
  from rest Cons.prems(2,3) have "map_of pr k = map_of pr1 k" by (rule Cons.IH)
  moreover have "map_of pr1 k = map_of pr0 k"
  proof (cases "k = fst kn")
    case True
    with w Cons.prems(2,3) pr1 show ?thesis by (cases w) auto
  next
    case False
    with pr1 show ?thesis by (cases w) (auto simp: map_of_update split: if_splits)
  qed
  ultimately show ?case by simp
qed

lemma convert_fields_array:
  "convert_fields call obj d pr0 = Some (Inr pr) \<Longrightarrow> distinct (map fst d) \<Longrightarrow>
   (key, nested) \<in> set d \<Longrightarrow> get_prop obj key = Inr (PArr es) \<Longrightarrow>
   \<exists>rs. map_of pr key = Some (VList rs) \<and>
        array_map (\<lambda>entry. call entry nested) es = Some (Inr rs)"
proof (induction d arbitrary: pr0)
  case Nil
  then show ?case by simp
next
  case (Cons kn rest)
  from Cons.prems(1) obtain w pr1 where w: "get_prop obj (fst kn) = Inr w"
    and rest: "convert_fields call obj rest pr1 = Some (Inr pr)"
    and pr1: "case w of
           PArr es \<Rightarrow> \<exists>rs. array_map (\<lambda>entry. call entry (snd kn)) es = Some (Inr rs) \<and>
                        pr1 = AList.update (fst kn) (VList rs) pr0
         | _ \<Rightarrow> if typeof_object w
                then \<exists>r. call w (snd kn) = Some (Inr r) \<and> pr1 = AList.update (fst kn) r pr0
                else pr1 = pr0"
    by (rule convert_fields_Cons_Inr)
  show ?case
  proof (cases "kn = (key, nested)")
    case True
    with Cons.prems(2) have "key \<notin> fst ` set rest" by auto
    with rest have "map_of pr key = map_of pr1 key" by (rule convert_fields_frame)
    with True w pr1 Cons.prems(4) show ?thesis by (auto simp: map_of_update)
  next
    case False
    with Cons.prems(3) have "(key, nested) \<in> set rest" by simp
    with rest Cons.prems(2,4) Cons.IH show ?thesis by simp
  qed
qed

lemma convert_fields_object:
  "convert_fields call obj d pr0 = Some (Inr pr) \<Longrightarrow> distinct (map fst d) \<Longrightarrow>
   (key, nested) \<in> set d \<Longrightarrow> get_prop obj key = Inr v \<Longrightarrow> typeof_object v \<Longrightarrow>
   \<forall>es. v \<noteq> PArr es \<Longrightarrow>
   \<exists>r. map_of pr key = Some r \<and> call v nested = Some (Inr r)"
proof (induction d arbitrary: pr0)
  case Nil
  then show ?case by simp
next
  case (Cons kn rest)
  from Cons.prems(1) obtain w pr1 where w: "get_prop obj (fst kn) = Inr w"
    and rest: "convert_fields call obj rest pr1 = Some (Inr pr)"
    and pr1: "case w of
           PArr es \<Rightarrow> \<exists>rs. array_map (\<lambda>entry. call entry (snd kn)) es = Some (Inr rs) \<and>
                        pr1 = AList.update (fst kn) (VList rs) pr0
         | _ \<Rightarrow> if typeof_object w
                then \<exists>r. call w (snd kn) = Some (Inr r) \<and> pr1 = AList.update (fst kn) r pr0
                else pr1 = pr0"
    by (rule convert_fields_Cons_Inr)
  show ?case
  proof (cases "kn = (key, nested)")
    case True
    with Cons.prems(2) have "key \<notin> fst ` set rest" by auto
    with rest have "map_of pr key = map_of pr1 key" by (rule convert_fields_frame)
    with True w pr1 Cons.prems(4,5,6) show ?thesis by (cases v) (auto simp: map_of_update)
  next
    case False
    with Cons.prems(3) have "(key, nested) \<in> set rest" by simp
    with rest Cons.prems(2,4,5,6) Cons.IH show ?thesis by simp
  qed
qed

lemma map_of_map_prod:
  "map_of (map (map_prod id f) kvs) k = map_option f (map_of kvs k)"
  by (induction kvs) auto

lemma map_of_R_merge: "map_of (R_merge obj) k = map_option embed (map_of (own_props obj) k)"
  by (simp add: R_merge_def map_of_map_prod)

text \<open>A call that returns a record called the factory on the working copy the loop left.\<close>

lemma fromJS_Inr_cases:
  assumes "map_of facTree facName = Some ent" and "factory ent = Some facRef"
    and "fromJS (Suc n) obj facTree facName = Some (Inr r)"
  obtains pr where "facRef (VObj pr) = Inr r"
    and "case descriptor ent of
           None \<Rightarrow> pr = R_merge obj
         | Some d \<Rightarrow>
             convert_fields (\<lambda>v nm. fromJS n v facTree nm) obj d (R_merge obj) = Some (Inr pr)"
proof (cases "descriptor ent")
  case None
  with assms that [of "R_merge obj"] show ?thesis by simp
next
  case (Some d)
  with assms that show ?thesis
    by (auto split: option.splits sum.splits)
qed

lemma array_map_succeeds:
  "(\<And>x. x \<in> set xs \<Longrightarrow> \<exists>r. f x = Some (Inr r)) \<Longrightarrow> \<exists>rs. array_map f xs = Some (Inr rs)"
proof (induction xs)
  case Nil
  show ?case by simp
next
  case (Cons x xs)
  from Cons.prems obtain r where "f x = Some (Inr r)" by auto
  moreover from Cons obtain rs where "array_map f xs = Some (Inr rs)" by auto
  ultimately show ?case by simp
qed

lemma convert_fields_succeeds:
  assumes "\<And>key nested. (key, nested) \<in> set d \<Longrightarrow>
    (case get_prop obj key of
       Inl e \<Rightarrow> False
     | Inr v \<Rightarrow>
         (case v of
            PArr es \<Rightarrow> \<forall>e \<in> set es. \<exists>r. call e nested = Some (Inr r)
          | _ \<Rightarrow> typeof_object v \<longrightarrow> (\<exists>r. call v nested = Some (Inr r))))"
  shows "\<exists>pr. convert_fields call obj d pr0 = Some (Inr pr)"
  using assms
proof (induction d arbitrary: pr0)
  case Nil
  show ?case by simp
next
  case (Cons kn rest)
  have rest: "\<exists>pr. convert_fields call obj rest pr1 = Some (Inr pr)" for pr1
    by (rule Cons.IH) (simp add: Cons.prems)
  have here: "case get_prop obj (fst kn) of
       Inl e \<Rightarrow> False
     | Inr v \<Rightarrow>
         (case v of
            PArr es \<Rightarrow> \<forall>e \<in> set es. \<exists>r. call e (snd kn) = Some (Inr r)
          | _ \<Rightarrow> typeof_object v \<longrightarrow> (\<exists>r. call v (snd kn) = Some (Inr r)))"
    by (rule Cons.prems) simp
  show ?case
  proof (cases "get_prop obj (fst kn)")
    case (Inl e)
    with here show ?thesis by simp
  next
    case (Inr v)
    show ?thesis
    proof (cases v)
      case (PArr es)
      with here Inr have "\<exists>rs. array_map (\<lambda>entry. call entry (snd kn)) es = Some (Inr rs)"
        by (intro array_map_succeeds) simp
      then obtain rs where "array_map (\<lambda>entry. call entry (snd kn)) es = Some (Inr rs)" ..
      with Inr PArr rest show ?thesis by simp
    next
      case PNull
      with here Inr obtain r where "call v (snd kn) = Some (Inr r)" by auto
      with Inr PNull rest show ?thesis by simp
    next
      case (PObj kvs)
      with here Inr obtain r where "call v (snd kn) = Some (Inr r)" by auto
      with Inr PObj rest show ?thesis by simp
    qed (use Inr rest in simp_all)
  qed
qed

lemma returns_record_iff: "returns_record out \<longleftrightarrow> (\<exists>r. out = Some (Inr r))"
  by (auto simp: returns_record_def split: option.splits sum.splits)

lemma convert_fields_converts:
  assumes "list_all (field_converts call obj) d"
  shows "\<exists>pr. convert_fields call obj d pr0 = Some (Inr pr)"
proof (rule convert_fields_succeeds)
  fix key nested assume "(key, nested) \<in> set d"
  with assms have "field_converts call obj (key, nested)" by (simp add: list_all_iff)
  then show "case get_prop obj key of
       Inl e \<Rightarrow> False
     | Inr v \<Rightarrow>
         (case v of
            PArr es \<Rightarrow> \<forall>e \<in> set es. \<exists>r. call e nested = Some (Inr r)
          | _ \<Rightarrow> typeof_object v \<longrightarrow> (\<exists>r. call v nested = Some (Inr r)))"
    by (cases "get_prop obj key"; cases "projr (get_prop obj key)")
      (auto simp: field_converts_def returns_record_iff list_all_iff)
qed

text \<open>When every turn of the loop goes through, the call is the factory's call on the
  working copy the loop leaves.\<close>

lemma fromJS_converts:
  assumes "map_of facTree facName = Some ent" and "factory ent = Some facRef"
    and "list_all (field_converts (\<lambda>v nm. fromJS n v facTree nm) obj)
           (case descriptor ent of None \<Rightarrow> [] | Some d \<Rightarrow> d)"
  obtains pr where "fromJS (Suc n) obj facTree facName = Some (facRef (VObj pr))"
    and "case descriptor ent of
           None \<Rightarrow> pr = R_merge obj
         | Some d \<Rightarrow>
             convert_fields (\<lambda>v nm. fromJS n v facTree nm) obj d (R_merge obj) = Some (Inr pr)"
proof (cases "descriptor ent")
  case None
  with assms that [of "R_merge obj"] show ?thesis by simp
next
  case (Some d)
  with assms(3) obtain pr
    where "convert_fields (\<lambda>v nm. fromJS n v facTree nm) obj d (R_merge obj) = Some (Inr pr)"
    using convert_fields_converts [of "\<lambda>v nm. fromJS n v facTree nm" obj d "R_merge obj"]
    by auto
  with assms(1,2) Some that [of pr] show ?thesis by simp
qed

text \<open>
  Claim C5. For a descriptor field of the input that holds an array, when the turns of
  the loop go through, \<^verbatim>\<open>fromJS\<close> calls the factory on a working copy whose field is a
  persistent sequence, of the length of the array, whose i-th element is the record that
  the nested call of \<^verbatim>\<open>fromJS\<close> returns on the i-th element of the array with the
  descriptor's nested factory name.
\<close>

theorem fromJS_array_field:
  assumes "map_of facTree facName = Some ent" and "factory ent = Some facRef"
    and "descriptor ent = Some d" and "distinct (map fst d)" and "(key, nested) \<in> set d"
    and "get_prop obj key = Inr (PArr entries)"
    and "list_all (field_converts (\<lambda>v nm. fromJS n v facTree nm) obj) d"
  shows "\<exists>pr rs. fromJS (Suc n) obj facTree facName = Some (facRef (VObj pr)) \<and>
           map_of pr key = Some (VList rs) \<and>
           list_all2 (\<lambda>entry x. fromJS n entry facTree nested = Some (Inr x)) entries rs"
proof -
  from assms(1,2,3,7) obtain pr
    where pr: "fromJS (Suc n) obj facTree facName = Some (facRef (VObj pr))"
    and "case descriptor ent of
           None \<Rightarrow> pr = R_merge obj
         | Some d \<Rightarrow>
             convert_fields (\<lambda>v nm. fromJS n v facTree nm) obj d (R_merge obj) = Some (Inr pr)"
    by (auto elim: fromJS_converts)
  with assms(3)
  have "convert_fields (\<lambda>v nm. fromJS n v facTree nm) obj d (R_merge obj) = Some (Inr pr)"
    by simp
  from convert_fields_array [OF this assms(4,5,6)] obtain rs
    where "map_of pr key = Some (VList rs)"
      and "array_map (\<lambda>entry. fromJS n entry facTree nested) entries = Some (Inr rs)"
    by blast
  with pr array_map_Inr show ?thesis by blast
qed

theorem fromJS_array_field_witness:
  "list_all (field_converts (\<lambda>v nm. fromJS 1 v (registry_of cartSchema) nm) cartInput)
     [(''items'', ''item'')] \<and>
   fromJS 2 cartInput (registry_of cartSchema) ''cart'' =
     Some (Inr (VRecord (Some ''Cart'')
       [(''items'', VList [VRecord (Some ''Item'') [(''n'', VNum 1)],
                           VRecord (Some ''Item'') [(''n'', VNum 2)]])])) \<and>
   (\<exists>pr rs. fromJS 2 cartInput (registry_of cartSchema) ''cart'' =
       Some (makeTypedFactory [(''items'', VList [])] (Some ''Cart'') (VObj pr)) \<and>
     map_of pr ''items'' = Some (VList rs) \<and>
     list_all2 (\<lambda>entry x. fromJS 1 entry (registry_of cartSchema) ''item'' = Some (Inr x))
       [PObj [(''n'', PNum 1)], PObj [(''n'', PNum 2)]] rs)"
proof -
  let ?ent = "\<lparr>descriptor = Some [(''items'', ''item'')],
               factory = Some (makeTypedFactory [(''items'', VList [])] (Some ''Cart''))\<rparr>"
  let ?r = "VRecord (Some ''Cart'')
       [(''items'', VList [VRecord (Some ''Item'') [(''n'', VNum 1)],
                           VRecord (Some ''Item'') [(''n'', VNum 2)]])]"
  have 1: "map_of (registry_of cartSchema) ''cart'' = Some ?ent"
    by (simp add: registry_of_def cartSchema_def)
  have 2: "factory ?ent = Some (makeTypedFactory [(''items'', VList [])] (Some ''Cart''))"
    and 3: "descriptor ?ent = Some [(''items'', ''item'')]"
    and 4: "distinct (map fst [(''items'', ''item'')])"
    and 5: "(''items'', ''item'') \<in> set [(''items'', ''item'')]"
    by simp_all
  have 6: "get_prop cartInput ''items'' = Inr (PArr [PObj [(''n'', PNum 1)], PObj [(''n'', PNum 2)]])"
    by (simp add: cartInput_def)
  have 7: "list_all (field_converts (\<lambda>v nm. fromJS (Suc 0) v (registry_of cartSchema) nm) cartInput)
     [(''items'', ''item'')]"
    by (simp add: field_converts_def returns_record_def registry_of_def cartSchema_def
        cartInput_def R_merge_def makeTypedFactory_def Record_new_def)
  have 8: "fromJS (Suc (Suc 0)) cartInput (registry_of cartSchema) ''cart'' = Some (Inr ?r)"
    by (simp add: registry_of_def cartSchema_def cartInput_def R_merge_def makeTypedFactory_def
        Record_new_def)
  from 7 8 fromJS_array_field [OF 1 2 3 4 5 6 7] show ?thesis
    by (simp add: numeral_2_eq_2)
qed

text \<open>
  Claim C6. When the turns of the loop go through, \<^verbatim>\<open>fromJS\<close> calls the factory on a
  working copy in which every field that the descriptor does not name is the field of
  the input: the same value if the input has it, absent if not, also when the value is
  an object or an array. What the call yields is what the factory yields on that copy.
\<close>

theorem fromJS_passes_other_fields:
  assumes "map_of facTree facName = Some ent" and "factory ent = Some facRef"
    and "f \<notin> fst ` set (case descriptor ent of None \<Rightarrow> [] | Some d \<Rightarrow> d)"
    and "list_all (field_converts (\<lambda>v nm. fromJS n v facTree nm) obj)
           (case descriptor ent of None \<Rightarrow> [] | Some d \<Rightarrow> d)"
  shows "\<exists>pr. fromJS (Suc n) obj facTree facName = Some (facRef (VObj pr)) \<and>
           map_of pr f = map_option embed (map_of (own_props obj) f)"
proof -
  from assms(1,2,4) obtain pr
    where pr: "fromJS (Suc n) obj facTree facName = Some (facRef (VObj pr))"
    and wc: "case descriptor ent of
           None \<Rightarrow> pr = R_merge obj
         | Some d \<Rightarrow>
             convert_fields (\<lambda>v nm. fromJS n v facTree nm) obj d (R_merge obj) = Some (Inr pr)"
    by (rule fromJS_converts)
  have "map_of pr f = map_of (R_merge obj) f"
  proof (cases "descriptor ent")
    case None
    with wc show ?thesis by simp
  next
    case (Some d)
    with wc assms(3) show ?thesis by (simp add: convert_fields_frame)
  qed
  with pr show ?thesis by (auto simp: map_of_R_merge)
qed

theorem fromJS_passes_other_fields_witness:
  "fromJS 1 (PObj [(''name'', PObj [(''first'', PStr ''Ann'')])]) factoryTree ''person'' =
     Some (Inr (VRecord (Some ''Person'')
       [(''name'', VObj [(''first'', VStr ''Ann'')]), (''pet'', VList []), (''master'', VNull)])) \<and>
   (\<exists>pr. fromJS 1 (PObj [(''name'', PObj [(''first'', PStr ''Ann'')])]) factoryTree ''person'' =
       Some (makeTypedFactory personTemplate (Some ''Person'') (VObj pr)) \<and>
     map_of pr ''name'' = Some (VObj [(''first'', VStr ''Ann'')]))"
proof -
  let ?ent = "\<lparr>descriptor = Some [(''pet'', ''pet''), (''master'', ''person'')],
               factory = Some (makeTypedFactory personTemplate (Some ''Person''))\<rparr>"
  let ?obj = "PObj [(''name'', PObj [(''first'', PStr ''Ann'')])]"
  let ?r = "VRecord (Some ''Person'')
       [(''name'', VObj [(''first'', VStr ''Ann'')]), (''pet'', VList []), (''master'', VNull)]"
  have 1: "map_of factoryTree ''person'' = Some ?ent"
    by (simp add: factoryTree_def)
  have 2: "factory ?ent = Some (makeTypedFactory personTemplate (Some ''Person''))"
    by simp
  have 3: "''name'' \<notin> fst ` set (case descriptor ?ent of None \<Rightarrow> [] | Some d \<Rightarrow> d)"
    by simp
  have 4: "list_all (field_converts (\<lambda>v nm. fromJS 0 v factoryTree nm) ?obj)
           (case descriptor ?ent of None \<Rightarrow> [] | Some d \<Rightarrow> d)"
    by (simp add: field_converts_def)
  have 5: "fromJS (Suc 0) ?obj factoryTree ''person'' = Some (Inr ?r)"
    by (simp add: factoryTree_def R_merge_def makeTypedFactory_def Record_new_def
        personTemplate_def)
  from 5 fromJS_passes_other_fields [OF 1 2 3 4] show ?thesis
    by simp
qed

subsection \<open>The round trip\<close>

lemma toJS_embed [simp]: "toJS (embed p) = p"
  by (induction p) (auto intro!: map_idI simp: map_prod_def split: prod.splits)

lemma deep_equal_scalar: "scalar v \<Longrightarrow> deep_equal v v"
  by (cases v) simp_all

lemma map_of_registry_of:
  "map_of (registry_of sch) name =
     map_option (\<lambda>(d, tmpl, rn). \<lparr>descriptor = d, factory = Some (makeTypedFactory tmpl rn)\<rparr>)
       (map_of sch name)"
  unfolding registry_of_def by (induction sch) auto

lemma get_prop_PObj:
  "get_prop (PObj kvs) key = Inr (case map_of kvs key of Some v \<Rightarrow> v | None \<Rightarrow> PUndefined)"
  by (simp split: option.splits)

text \<open>The loop on an input of the descriptor's shape, given that the nested calls
  return records that convert back to their inputs.\<close>

lemma working_copy_roundtrip:
  fixes call :: "plain \<Rightarrow> string \<Rightarrow> val result"
  assumes IH: "\<And>v nm. matches sch nm v \<Longrightarrow> depth v < n \<Longrightarrow>
                 \<exists>r. call v nm = Some (Inr r) \<and> deep_equal (toJS r) v"
    and dl: "distinct (map fst dl)"
    and n: "depth (PObj kvs) \<le> n"
    and fields: "\<And>k v. (k, v) \<in> set kvs \<Longrightarrow>
      (case map_of dl k of
         None \<Rightarrow> scalar v
       | Some nested \<Rightarrow>
           (case v of
              PObj kvs' \<Rightarrow> matches sch nested v
            | PArr es \<Rightarrow> list_all (\<lambda>e. matches sch nested e) es
            | _ \<Rightarrow> False))"
  shows "\<exists>pr. convert_fields call (PObj kvs) dl (R_merge (PObj kvs)) = Some (Inr pr) \<and>
          (\<forall>k w. map_of kvs k = Some w \<longrightarrow> (\<exists>x. map_of pr k = Some x \<and> deep_equal (toJS x) w))"
proof -
  let ?obj = "PObj kvs"
  have deep: "depth v < n" if "(k, v) \<in> set kvs" for k v
    using depth_field [OF that] n by simp
  have elem: "\<exists>r. call e nested = Some (Inr r) \<and> deep_equal (toJS r) e"
    if "map_of kvs k = Some (PArr es)" "map_of dl k = Some nested" "e \<in> set es" for k es nested e
  proof -
    from that(1) have mem: "(k, PArr es) \<in> set kvs" by (rule map_of_SomeD)
    from fields [OF mem] that(2,3) have "matches sch nested e" by (simp add: list_all_iff)
    moreover from depth_elem [OF that(3)] deep [OF mem] have "depth e < n" by simp
    ultimately show ?thesis by (rule IH)
  qed
  have object: "\<exists>r. call (PObj kvs') nested = Some (Inr r) \<and> deep_equal (toJS r) (PObj kvs')"
    if "map_of kvs k = Some (PObj kvs')" "map_of dl k = Some nested" for k kvs' nested
  proof -
    from that(1) have mem: "(k, PObj kvs') \<in> set kvs" by (rule map_of_SomeD)
    from fields [OF mem] that(2) have "matches sch nested (PObj kvs')" by simp
    then show ?thesis using deep [OF mem] by (rule IH)
  qed
  have "\<exists>pr. convert_fields call ?obj dl (R_merge ?obj) = Some (Inr pr)"
  proof (rule convert_fields_succeeds)
    fix key nested assume kn: "(key, nested) \<in> set dl"
    with dl have dk: "map_of dl key = Some nested" by simp
    show "case get_prop ?obj key of
       Inl e \<Rightarrow> False
     | Inr v \<Rightarrow>
         (case v of
            PArr es \<Rightarrow> \<forall>e \<in> set es. \<exists>r. call e nested = Some (Inr r)
          | _ \<Rightarrow> typeof_object v \<longrightarrow> (\<exists>r. call v nested = Some (Inr r)))"
    proof (cases "map_of kvs key")
      case None
      then show ?thesis by (simp add: get_prop_PObj del: get_prop.simps)
    next
      case (Some w)
      then have mem: "(key, w) \<in> set kvs" by (rule map_of_SomeD)
      show ?thesis
      proof (cases w)
        case (PArr es)
        with Some dk elem have "\<forall>e \<in> set es. \<exists>r. call e nested = Some (Inr r)" by blast
        with Some PArr show ?thesis by (simp add: get_prop_PObj del: get_prop.simps)
      next
        case (PObj kvs')
        with Some dk object have "\<exists>r. call w nested = Some (Inr r)" by blast
        with Some PObj show ?thesis by (simp add: get_prop_PObj del: get_prop.simps)
      qed (use fields [OF mem] dk in simp_all)
    qed
  qed
  then obtain pr where pr: "convert_fields call ?obj dl (R_merge ?obj) = Some (Inr pr)" ..
  have "\<exists>x. map_of pr k = Some x \<and> deep_equal (toJS x) w" if kw: "map_of kvs k = Some w" for k w
  proof -
    from kw have mem: "(k, w) \<in> set kvs" by (rule map_of_SomeD)
    from kw have gp: "get_prop ?obj k = Inr w" by (simp add: get_prop_PObj del: get_prop.simps)
    show ?thesis
    proof (cases "map_of dl k")
      case None
      then have "k \<notin> fst ` set dl" by (simp add: map_of_eq_None_iff)
      with pr have "map_of pr k = map_of (R_merge ?obj) k" by (rule convert_fields_frame)
      with kw have "map_of pr k = Some (embed w)" by (simp add: map_of_R_merge)
      moreover from fields [OF mem] None have "deep_equal (toJS (embed w)) w"
        by (simp add: deep_equal_scalar)
      ultimately show ?thesis by blast
    next
      case (Some nested)
      then have kn: "(k, nested) \<in> set dl" by (rule map_of_SomeD)
      show ?thesis
      proof (cases w)
        case (PArr es)
        from convert_fields_array [OF pr dl kn gp [unfolded PArr]] obtain rs
          where x: "map_of pr k = Some (VList rs)"
            and rs: "array_map (\<lambda>entry. call entry nested) es = Some (Inr rs)"
          by blast
        from rs have "list_all2 (\<lambda>e r. call e nested = Some (Inr r)) es rs"
          by (rule array_map_Inr)
        then have "list_all2 (\<lambda>e r. deep_equal (toJS r) e) es rs"
        proof (rule list.rel_mono_strong)
          fix e r assume "e \<in> set es" and "call e nested = Some (Inr r)"
          with elem [OF kw [unfolded PArr] Some, of e] show "deep_equal (toJS r) e" by auto
        qed
        then have "list_all2 (\<lambda>r e. deep_equal (toJS r) e) rs es"
          by (simp add: list_all2_conv_all_nth)
        then have "deep_equal (toJS (VList rs)) (PArr es)"
          by (simp add: list_all2_map1)
        with x PArr show ?thesis by blast
      next
        case (PObj kvs')
        from gp PObj have "typeof_object w" "\<forall>es. w \<noteq> PArr es" by simp_all
        from convert_fields_object [OF pr dl kn gp this] obtain r
          where "map_of pr k = Some r" and "call w nested = Some (Inr r)"
          by blast
        moreover from object [OF kw [unfolded PObj] Some] PObj
        have "\<exists>r. call w nested = Some (Inr r) \<and> deep_equal (toJS r) w" by simp
        ultimately show ?thesis by auto
      qed (use fields [OF mem] Some in simp_all)
    qed
  qed
  with pr show ?thesis by blast
qed

lemma Record_new_toJS:
  assumes keys: "set (map fst kvs) = set (map fst tmpl)"
    and pr: "\<And>k w. map_of kvs k = Some w \<Longrightarrow> \<exists>x. map_of pr k = Some x \<and> deep_equal (toJS x) w"
  shows "\<exists>r. makeTypedFactory tmpl rn (VObj pr) = Inr r \<and> deep_equal (toJS r) (PObj kvs)"
proof -
  let ?fields = "map (\<lambda>(k, d). (k, case map_of pr k of Some x \<Rightarrow> x | None \<Rightarrow> d)) tmpl"
  have r: "makeTypedFactory tmpl rn (VObj pr) = Inr (VRecord rn ?fields)"
    by (simp add: makeTypedFactory_def Record_new_def)
  have fst: "map fst (map (map_prod id toJS) ?fields) = map fst tmpl"
    by (induction tmpl) auto
  have "case map_of kvs (fst kv) of None \<Rightarrow> False | Some w \<Rightarrow> deep_equal (snd kv) w"
    if "kv \<in> set (map (map_prod id toJS) ?fields)" for kv
  proof -
    from that obtain k d where kd: "(k, d) \<in> set tmpl"
      and kv: "kv = (k, toJS (case map_of pr k of Some x \<Rightarrow> x | None \<Rightarrow> d))"
      by auto
    from kd keys have "k \<in> fst ` set kvs" by force
    then obtain w where w: "map_of kvs k = Some w"
      by (metis domD dom_map_of_conv_image_fst)
    from pr [OF w] obtain x where "map_of pr k = Some x" "deep_equal (toJS x) w" by blast
    with kv w show ?thesis by simp
  qed
  then have "deep_equal (toJS (VRecord rn ?fields)) (PObj kvs)"
    using keys by (simp add: fst list_all_iff del: map_map)
  with r show ?thesis by blast
qed

text \<open>
  Claim C4. For a registry whose factories come from \<^verbatim>\<open>makeTypedFactory\<close> and an
  input that matches the shape of the factory \<open>name\<close> exactly, \<^verbatim>\<open>fromJS\<close> returns
  a record (given a bound above the nesting depth of the input), and \<^verbatim>\<open>toJS\<close> of
  that record is deep-equal to the input. No input matches along a cycle of the
  descriptor graph, so the descriptor graph needs no hypothesis of its own.
\<close>

theorem fromJS_toJS_roundtrip:
  "matches sch name obj \<Longrightarrow> depth obj < n \<Longrightarrow>
   \<exists>r. fromJS n obj (registry_of sch) name = Some (Inr r) \<and> deep_equal (toJS r) obj"
proof (induction n arbitrary: obj name)
  case 0
  then show ?case by simp
next
  case (Suc n)
  from Suc.prems(1) obtain kvs where obj: "obj = PObj kvs" by (cases obj) simp_all
  from Suc.prems(1) obj obtain d tmpl rn where sch: "map_of sch name = Some (d, tmpl, rn)"
    by (auto split: option.splits)
  define dl where "dl = (case d of None \<Rightarrow> [] | Some dl \<Rightarrow> dl)"
  from Suc.prems(1) obj sch have keys: "set (map fst kvs) = set (map fst tmpl)"
    and ddl: "distinct (map fst dl)"
    and all: "list_all (\<lambda>kv.
            case map_of dl (fst kv) of
              None \<Rightarrow> scalar (snd kv)
            | Some nested \<Rightarrow>
                (case snd kv of
                   PObj kvs' \<Rightarrow> matches sch nested (snd kv)
                 | PArr es \<Rightarrow> list_all (\<lambda>e. matches sch nested e) es
                 | _ \<Rightarrow> False)) kvs"
    by (simp_all add: dl_def)
  let ?call = "\<lambda>v nm. fromJS n v (registry_of sch) nm"
  have "\<exists>pr. convert_fields ?call (PObj kvs) dl (R_merge (PObj kvs)) = Some (Inr pr) \<and>
          (\<forall>k w. map_of kvs k = Some w \<longrightarrow> (\<exists>x. map_of pr k = Some x \<and> deep_equal (toJS x) w))"
  proof (rule working_copy_roundtrip [where sch = sch and n = n])
    show "\<exists>r. ?call v nm = Some (Inr r) \<and> deep_equal (toJS r) v"
      if "matches sch nm v" "depth v < n" for v nm
      using that by (rule Suc.IH)
    show "distinct (map fst dl)" by (rule ddl)
    from Suc.prems(2) obj show "depth (PObj kvs) \<le> n" by simp
    show "case map_of dl k of
         None \<Rightarrow> scalar v
       | Some nested \<Rightarrow>
           (case v of
              PObj kvs' \<Rightarrow> matches sch nested v
            | PArr es \<Rightarrow> list_all (\<lambda>e. matches sch nested e) es
            | _ \<Rightarrow> False)" if "(k, v) \<in> set kvs" for k v
    proof -
      from all have "\<forall>kv \<in> set kvs.
            case map_of dl (fst kv) of
              None \<Rightarrow> scalar (snd kv)
            | Some nested \<Rightarrow>
                (case snd kv of
                   PObj kvs' \<Rightarrow> matches sch nested (snd kv)
                 | PArr es \<Rightarrow> list_all (\<lambda>e. matches sch nested e) es
                 | _ \<Rightarrow> False)"
        by (simp only: list_all_iff)
      from bspec [OF this that] show ?thesis
        by (cases "map_of dl k"; cases v; simp)
    qed
  qed
  then obtain pr
    where cf: "convert_fields ?call (PObj kvs) dl (R_merge (PObj kvs)) = Some (Inr pr)"
      and pr: "\<And>k w. map_of kvs k = Some w \<Longrightarrow> \<exists>x. map_of pr k = Some x \<and> deep_equal (toJS x) w"
    by blast
  have "fromJS (Suc n) obj (registry_of sch) name = Some (makeTypedFactory tmpl rn (VObj pr))"
  proof (cases d)
    case None
    with cf have "pr = R_merge (PObj kvs)" by (simp add: dl_def)
    with None sch obj show ?thesis by (simp add: map_of_registry_of)
  next
    case (Some dl')
    with cf sch obj show ?thesis by (simp add: map_of_registry_of dl_def)
  qed
  with Record_new_toJS [OF keys pr, of rn] obj show ?case by auto
qed

theorem fromJS_toJS_roundtrip_witness:
  "matches ownerSchema ''person'' ownerInput \<and> depth ownerInput < 4 \<and>
   fromJS 4 ownerInput (registry_of ownerSchema) ''person'' =
     Some (Inr (VRecord None
       [(''name'', VStr ''Ann''),
        (''pets'', VList [VRecord None [(''name'', VStr ''Rex''), (''type'', VStr ''dog'')]])])) \<and>
   deep_equal
     (toJS (VRecord None
       [(''name'', VStr ''Ann''),
        (''pets'', VList [VRecord None [(''name'', VStr ''Rex''), (''type'', VStr ''dog'')]])]))
     ownerInput"
proof -
  have m: "matches ownerSchema ''person'' ownerInput"
    by (simp add: ownerSchema_def ownerInput_def)
  have d: "depth ownerInput < 4"
    by (simp add: ownerInput_def)
  have r: "fromJS 4 ownerInput (registry_of ownerSchema) ''person'' =
     Some (Inr (VRecord None
       [(''name'', VStr ''Ann''),
        (''pets'', VList [VRecord None [(''name'', VStr ''Rex''), (''type'', VStr ''dog'')]])]))"
    by (simp add: eval_nat_numeral registry_of_def ownerSchema_def ownerInput_def R_merge_def
        makeTypedFactory_def Record_new_def)
  from fromJS_toJS_roundtrip [OF m d] r m d show ?thesis by auto
qed

section \<open>Properties of the deserializer on the store\<close>

lemma prefix_alloc: "alloc h ob = (a, h') \<Longrightarrow> prefix h h'"
  by (auto simp: alloc_def)

lemma prefix_set_prop:
  assumes "prefix h0 h" and "length h0 \<le> p"
  shows "prefix h0 (set_prop h p key x)"
proof -
  from assms(1) obtain ys where "h = h0 @ ys" by (auto simp: prefix_def)
  with assms(2) have "prefix h0 (h[p := ob])" for ob
    by (simp add: list_update_append)
  then show ?thesis
    using assms(1) by (simp add: set_prop_def split: option.splits hobj.splits)
qed

lemma array_map_h_frame:
  assumes "\<And>h x r h'. f h x = Some (r, h') \<Longrightarrow> prefix h h'"
  shows "array_map_h f h xs = Some (r, h') \<Longrightarrow> prefix h h'"
proof (induction xs arbitrary: h r h')
  case Nil
  then show ?case by simp
next
  case (Cons x xs)
  from Cons.prems obtain y h1 where fx: "f h x = Some (y, h1)"
    by (cases "f h x") auto
  then have 1: "prefix h h1" by (rule assms)
  show ?case
  proof (cases y)
    case (Inl e)
    with fx Cons.prems 1 show ?thesis by simp
  next
    case (Inr v)
    with fx Cons.prems obtain t h2 where t: "array_map_h f h1 xs = Some (t, h2)" and "h' = h2"
      by (cases "array_map_h f h1 xs") (auto split: sum.splits)
    with Cons.IH [OF t] 1 show ?thesis by auto
  qed
qed

lemma convert_fields_h_frame:
  assumes call: "\<And>h v nm r h'. call h v nm = Some (r, h') \<Longrightarrow> prefix h h'"
    and p: "length h0 \<le> p"
  shows "prefix h0 h \<Longrightarrow> convert_fields_h call obj p d h = Some (r, h') \<Longrightarrow> prefix h0 h'"
proof (induction d arbitrary: h)
  case Nil
  then show ?case by simp
next
  case (Cons kn rest)
  show ?case
  proof (cases "get_prop_h h obj (fst kn)")
    case (Inl e)
    with Cons.prems show ?thesis by simp
  next
    case (Inr v)
    show ?thesis
    proof (cases "isArray_h h v")
      case True
      with Inr Cons.prems(2) obtain t h1
        where t: "array_map_h (\<lambda>h' entry. call h' entry (snd kn)) h (elements h v) = Some (t, h1)"
        by (auto split: option.splits)
      have "prefix h h1"
        using t by (rule array_map_h_frame [rotated]) (rule call)
      with Cons.prems(1) have 1: "prefix h0 h1" by auto
      show ?thesis
      proof (cases t)
        case (Inl e)
        with Inr True t Cons.prems(2) 1 show ?thesis by simp
      next
        case rs: (Inr rs)
        let ?h3 = "(h1 @ [HArray rs]) @ [HList rs]"
        from 1 have "prefix h0 ?h3" by (intro prefix_prefix)
        then have "prefix h0 (set_prop ?h3 p (fst kn) (HRef (Suc (length h1))))"
          using p by (rule prefix_set_prop)
        moreover from Inr True t rs Cons.prems(2)
        have "convert_fields_h call obj p rest
                (set_prop ?h3 p (fst kn) (HRef (Suc (length h1)))) = Some (r, h')"
          by (simp add: alloc_def)
        ultimately show ?thesis by (rule Cons.IH)
      qed
    next
      case notarr: False
      show ?thesis
      proof (cases "typeof_object_h v")
        case False
        with Inr notarr Cons.prems Cons.IH show ?thesis by simp
      next
        case True
        with Inr notarr Cons.prems(2) obtain t h1 where t: "call h v (snd kn) = Some (t, h1)"
          by (auto split: option.splits)
        then have "prefix h h1" by (rule call)
        with Cons.prems(1) have 1: "prefix h0 h1" by auto
        show ?thesis
        proof (cases t)
          case (Inl e)
          with Inr notarr True t Cons.prems(2) 1 show ?thesis by simp
        next
          case x: (Inr x)
          from 1 p have "prefix h0 (set_prop h1 p (fst kn) x)" by (rule prefix_set_prop)
          moreover from Inr notarr True t x Cons.prems(2)
          have "convert_fields_h call obj p rest (set_prop h1 p (fst kn) x) = Some (r, h')"
            by simp
          ultimately show ?thesis by (rule Cons.IH)
        qed
      qed
    qed
  qed
qed

lemma makeTypedFactory_h_keeps_store: "keeps_store (makeTypedFactory_h obj name)"
  by (auto simp: keeps_store_def makeTypedFactory_h_def Record_new_h_def alloc_def
      split: hval.splits option.splits hobj.splits)

lemma fromJS_h_frame:
  assumes fac: "\<And>nm ent fac. (nm, ent) \<in> set facTree \<Longrightarrow> factory_h ent = Some fac \<Longrightarrow>
                  keeps_store fac"
  shows "fromJS_h n h obj facTree facName = Some (r, h') \<Longrightarrow> prefix h h'"
proof (induction n arbitrary: h obj facName r h')
  case 0
  then show ?case by simp
next
  case (Suc n)
  show ?case
  proof (cases "map_of facTree facName")
    case None
    with Suc.prems show ?thesis by simp
  next
    case ent: (Some ent)
    show ?thesis
    proof (cases "factory_h ent")
      case None
      with ent Suc.prems show ?thesis by simp
    next
      case f: (Some facRef)
      from ent have "(facName, ent) \<in> set facTree" by (rule map_of_SomeD)
      then have keeps: "prefix g (snd (facRef g v))" for g v
        using fac f by (auto simp: keeps_store_def)
      let ?p = "length h"
      let ?h1 = "h @ [HObject (own_props_h h obj)]"
      have h1: "prefix h ?h1" by simp
      show ?thesis
      proof (cases "descriptor_h ent")
        case None
        with ent f Suc.prems have "facRef ?h1 (HRef ?p) = (r, h')"
          by (simp add: R_merge_h_def alloc_def)
        with keeps [of ?h1 "HRef ?p"] have "prefix ?h1 h'" by simp
        with h1 show ?thesis by (rule prefix_order.trans)
      next
        case (Some d)
        with ent f Suc.prems obtain t h2
          where t: "convert_fields_h (\<lambda>h' v nm. fromJS_h n h' v facTree nm) obj ?p d ?h1
                      = Some (t, h2)"
          by (auto simp: R_merge_h_def alloc_def split: option.splits)
        have 2: "prefix h h2"
          using _ _ h1 t
        proof (rule convert_fields_h_frame)
          show "prefix g g'" if "fromJS_h n g v facTree nm = Some (x, g')" for g v nm x g'
            using that by (rule Suc.IH)
          show "length h \<le> length h" by simp
        qed
        show ?thesis
        proof (cases t)
          case (Inl e)
          with ent f Some t Suc.prems 2 show ?thesis
            by (simp add: R_merge_h_def alloc_def)
        next
          case (Inr u)
          with ent f Some t Suc.prems have "facRef h2 (HRef ?p) = (r, h')"
            by (simp add: R_merge_h_def alloc_def)
          with keeps [of h2 "HRef ?p"] have "prefix h2 h'" by simp
          with 2 show ?thesis by (rule prefix_order.trans)
        qed
      qed
    qed
  qed
qed

lemma those_map_mono:
  assumes "\<And>x y. x \<in> set xs \<Longrightarrow> f x = Some y \<Longrightarrow> g x = Some y"
  shows "those (map f xs) = Some ys \<Longrightarrow> those (map g xs) = Some ys"
  using assms
proof (induction xs arbitrary: ys)
  case Nil
  then show ?case by simp
next
  case (Cons x xs)
  from Cons.prems(1) obtain y zs where y: "f x = Some y" and zs: "those (map f xs) = Some zs"
    and ys: "ys = y # zs"
    by (auto split: option.splits)
  from y have "g x = Some y" by (simp add: Cons.prems(2))
  moreover from zs have "those (map g xs) = Some zs"
    by (rule Cons.IH) (simp add: Cons.prems(2))
  ultimately show ?case using ys by simp
qed

lemma deref_prefix: "prefix h h' \<Longrightarrow> deref h a = Some ob \<Longrightarrow> deref h' a = Some ob"
  by (auto simp: deref_def prefix_def nth_append split: if_splits)

lemma read_plain_prefix:
  assumes "prefix h h'"
  shows "read_plain k h v = Some p \<Longrightarrow> read_plain k h' v = Some p"
proof (induction k arbitrary: v p)
  case 0
  then show ?case by simp
next
  case (Suc k)
  show ?case
  proof (cases v)
    case (HRef a)
    with Suc.prems obtain ob where ob: "deref h a = Some ob"
      by (auto split: option.splits)
    with assms have ob': "deref h' a = Some ob" by (rule deref_prefix)
    show ?thesis
    proof (cases ob)
      case (HObject kvs)
      with Suc.prems HRef ob obtain ps
        where ps: "those (map (\<lambda>kv. map_option (Pair (fst kv)) (read_plain k h (snd kv))) kvs)
                     = Some ps" and p: "p = PObj ps"
        by auto
      from ps have "those (map (\<lambda>kv. map_option (Pair (fst kv)) (read_plain k h' (snd kv))) kvs)
                     = Some ps"
        by (rule those_map_mono [rotated]) (auto dest: Suc.IH)
      with HRef ob' HObject p show ?thesis by simp
    next
      case (HArray xs)
      with Suc.prems HRef ob obtain ps
        where ps: "those (map (read_plain k h) xs) = Some ps" and p: "p = PArr ps"
        by auto
      from ps have "those (map (read_plain k h') xs) = Some ps"
        by (rule those_map_mono [rotated]) (auto dest: Suc.IH)
      with HRef ob' HArray p show ?thesis by simp
    qed (use Suc.prems HRef ob in simp_all)
  qed (use Suc.prems in simp_all)
qed

lemma those_map_Some:
  "those (map f xs) = Some ys \<Longrightarrow> x \<in> set xs \<Longrightarrow> \<exists>y. f x = Some y"
  by (induction xs arbitrary: ys) (auto split: option.splits)

lemma read_plain_Suc: "read_plain k h v = Some p \<Longrightarrow> read_plain (Suc k) h v = Some p"
proof (induction k arbitrary: v p)
  case 0
  then show ?case by simp
next
  case (Suc k)
  show ?case
  proof (cases v)
    case (HRef a)
    with Suc.prems obtain ob where ob: "deref h a = Some ob"
      by (auto split: option.splits)
    show ?thesis
    proof (cases ob)
      case (HObject kvs)
      with Suc.prems HRef ob obtain ps
        where ps: "those (map (\<lambda>kv. map_option (Pair (fst kv)) (read_plain k h (snd kv))) kvs)
                     = Some ps" and p: "p = PObj ps"
        by auto
      from ps have "those (map (\<lambda>kv. map_option (Pair (fst kv)) (read_plain (Suc k) h (snd kv))) kvs)
                     = Some ps"
        by (rule those_map_mono [rotated]) (auto dest: Suc.IH)
      with HRef ob HObject p show ?thesis by (simp del: read_plain.simps add: read_plain.simps(2) [of "Suc k"])
    next
      case (HArray xs)
      with Suc.prems HRef ob obtain ps
        where ps: "those (map (read_plain k h) xs) = Some ps" and p: "p = PArr ps"
        by auto
      from ps have "those (map (read_plain (Suc k) h) xs) = Some ps"
        by (rule those_map_mono [rotated]) (auto dest: Suc.IH)
      with HRef ob HArray p show ?thesis by (simp del: read_plain.simps add: read_plain.simps(2) [of "Suc k"])
    qed (use Suc.prems HRef ob in simp_all)
  qed (use Suc.prems in simp_all)
qed

text \<open>An input that reads as plain data keeps its properties when the store grows.\<close>

lemma get_prop_h_prefix:
  assumes "read_plain k h0 obj = Some p" and "prefix h0 h"
  shows "get_prop_h h obj key = get_prop_h h0 obj key"
proof (cases obj)
  case (HRef a)
  with assms(1) obtain ob where ob: "deref h0 a = Some ob"
    by (cases k) (auto split: option.splits)
  with assms(2) have ob': "deref h a = Some ob" by (rule deref_prefix)
  have "own_props_h h (HRef a) = own_props_h h0 (HRef a)"
    and "isArray_h h (HRef a) = isArray_h h0 (HRef a)"
    and "elements h (HRef a) = elements h0 (HRef a)"
    by (simp_all add: ob ob')
  then show ?thesis
    unfolding HRef get_prop_h.simps by (simp only:)
qed simp_all

lemma isArray_h_prefix:
  assumes "read_plain k h0 v = Some p" and "prefix h0 h"
  shows "isArray_h h v = isArray_h h0 v" and "elements h v = elements h0 v"
proof -
  show "isArray_h h v = isArray_h h0 v"
  proof (cases v)
    case (HRef a)
    with assms(1) obtain ob where ob: "deref h0 a = Some ob"
      by (cases k) (auto split: option.splits)
    with assms(2) have "deref h a = Some ob" by (rule deref_prefix)
    with ob HRef show ?thesis by simp
  qed simp_all
  show "elements h v = elements h0 v"
  proof (cases v)
    case (HRef a)
    with assms(1) obtain ob where ob: "deref h0 a = Some ob"
      by (cases k) (auto split: option.splits)
    with assms(2) have "deref h a = Some ob" by (rule deref_prefix)
    with ob HRef show ?thesis by simp
  qed simp_all
qed

lemma get_prop_h_read:
  assumes "read_plain (Suc k) h obj = Some p" and "get_prop_h h obj key = Inr v"
    and "typeof_object_h v"
  shows "\<exists>q. read_plain k h v = Some q"
proof (cases obj)
  case (HRef a)
  with assms(1) obtain ob where ob: "deref h a = Some ob"
    by (auto split: option.splits)
  show ?thesis
  proof (cases ob)
    case (HObject kvs)
    with assms(2,3) HRef ob have "map_of kvs key = Some v"
      by (auto split: option.splits if_splits)
    then have mem: "(key, v) \<in> set kvs" by (rule map_of_SomeD)
    from assms(1) HRef ob HObject obtain ps
      where "those (map (\<lambda>kv. map_option (Pair (fst kv)) (read_plain k h (snd kv))) kvs) = Some ps"
      by auto
    from those_map_Some [OF this mem] show ?thesis by auto
  next
    case (HArray xs)
    with assms(2,3) HRef ob have "map_of (zip (map show_nat [0 ..< length xs]) xs) key = Some v"
      by (auto split: option.splits if_splits)
    then have mem: "v \<in> set xs" by (meson map_of_SomeD set_zip_rightD)
    from assms(1) HRef ob HArray obtain ps
      where "those (map (read_plain k h) xs) = Some ps"
      by auto
    from those_map_Some [OF this mem] show ?thesis by auto
  qed (use assms HRef ob in auto)
next
  case (HStr s)
  with assms(2,3) show ?thesis
    by (auto split: option.splits if_splits dest!: map_of_SomeD set_zip_rightD)
qed (use assms in auto)

lemma elements_read:
  assumes "read_plain k h v = Some q" and "isArray_h h v" and "e \<in> set (elements h v)"
  shows "\<exists>q'. read_plain k h e = Some q'"
proof (cases k)
  case 0
  with assms(1) show ?thesis by simp
next
  case (Suc j)
  from assms(2) obtain a xs where v: "v = HRef a" and ob: "deref h a = Some (HArray xs)"
    by (cases v) (auto split: option.splits hobj.splits)
  with assms(1) Suc obtain ps where "those (map (read_plain j h) xs) = Some ps"
    by auto
  moreover from assms(3) v ob have "e \<in> set xs" by simp
  ultimately obtain q' where "read_plain j h e = Some q'" by (auto dest: those_map_Some)
  then have "read_plain (Suc j) h e = Some q'" by (rule read_plain_Suc)
  with Suc show ?thesis by blast
qed

lemma array_map_h_returns:
  assumes frame: "\<And>h x r h'. f h x = Some (r, h') \<Longrightarrow> prefix h h'"
    and ret: "\<And>h x. x \<in> set xs \<Longrightarrow> prefix h0 h \<Longrightarrow> f h x \<noteq> None"
  shows "prefix h0 h \<Longrightarrow> array_map_h f h xs \<noteq> None"
  using ret
proof (induction xs arbitrary: h)
  case Nil
  show ?case by simp
next
  case (Cons x xs)
  have "f h x \<noteq> None" by (rule Cons.prems(2)) (simp, rule Cons.prems(1))
  then obtain y h1 where fx: "f h x = Some (y, h1)" by auto
  then have "prefix h h1" by (rule frame)
  with Cons.prems(1) have "prefix h0 h1" by auto
  then have "array_map_h f h1 xs \<noteq> None"
    by (rule Cons.IH) (simp add: Cons.prems(2))
  with fx show ?case by (auto split: sum.splits)
qed

lemma convert_fields_h_returns:
  assumes frame: "\<And>h v nm r h'. call h v nm = Some (r, h') \<Longrightarrow> prefix h h'"
    and ret: "\<And>h v nm q. read_plain k h0 v = Some q \<Longrightarrow> prefix h0 h \<Longrightarrow> call h v nm \<noteq> None"
    and obj: "read_plain (Suc k) h0 obj = Some p"
    and hb: "prefix h0 hb" and pa: "length hb \<le> pa"
  shows "prefix hb h \<Longrightarrow> convert_fields_h call obj pa d h \<noteq> None"
proof (induction d arbitrary: h)
  case Nil
  show ?case by simp
next
  case (Cons kn rest)
  from hb Cons.prems have h0h: "prefix h0 h" by auto
  have gp0: "get_prop_h h obj (fst kn) = get_prop_h h0 obj (fst kn)"
    using obj h0h by (rule get_prop_h_prefix)
  show ?case
  proof (cases "get_prop_h h0 obj (fst kn)")
    case (Inl e)
    with gp0 have "get_prop_h h obj (fst kn) = Inl e" by (simp only:)
    then show ?thesis by simp
  next
    case (Inr v)
    with gp0 have gp: "get_prop_h h obj (fst kn) = Inr v" by (simp only:)
    show ?thesis
    proof (cases "typeof_object_h v")
      case False
      then have "\<not> isArray_h h v" by (cases v) simp_all
      with False gp Cons.IH [OF Cons.prems] show ?thesis by simp
    next
      case True
      from get_prop_h_read [OF obj Inr True] obtain q where q: "read_plain k h0 v = Some q" ..
      show ?thesis
      proof (cases "isArray_h h v")
        case arr: True
        from arr isArray_h_prefix [OF q h0h]
        have arr0: "isArray_h h0 v" and el: "elements h v = elements h0 v"
          by simp_all
        have "array_map_h (\<lambda>h' entry. call h' entry (snd kn)) h (elements h v) \<noteq> None"
        proof (rule array_map_h_returns [where ?h0.0 = h0])
          show "prefix g g'" if "call g x (snd kn) = Some (r, g')" for g x r g'
            using that by (rule frame)
          show "call g x (snd kn) \<noteq> None" if "x \<in> set (elements h v)" "prefix h0 g" for g x
          proof -
            from that(1) el have "x \<in> set (elements h0 v)" by simp
            from elements_read [OF q arr0 this] obtain q' where "read_plain k h0 x = Some q'" ..
            then show ?thesis using that(2) by (rule ret)
          qed
          show "prefix h0 h" by (rule h0h)
        qed
        then obtain t h1
          where t: "array_map_h (\<lambda>h' entry. call h' entry (snd kn)) h (elements h v) = Some (t, h1)"
          by auto
        have "prefix h h1"
          using t by (rule array_map_h_frame [rotated]) (rule frame)
        with Cons.prems have 1: "prefix hb h1" by auto
        show ?thesis
        proof (cases t)
          case (Inl e)
          with gp arr t show ?thesis by simp
        next
          case rs: (Inr rs)
          let ?h3 = "(h1 @ [HArray rs]) @ [HList rs]"
          from 1 have "prefix hb ?h3" by (intro prefix_prefix)
          then have "prefix hb (set_prop ?h3 pa (fst kn) (HRef (Suc (length h1))))"
            using pa by (rule prefix_set_prop)
          then have "convert_fields_h call obj pa rest
                (set_prop ?h3 pa (fst kn) (HRef (Suc (length h1)))) \<noteq> None"
            by (rule Cons.IH)
          with gp arr t rs show ?thesis by (simp add: alloc_def)
        qed
      next
        case notarr: False
        from q h0h have "call h v (snd kn) \<noteq> None" by (rule ret)
        then obtain t h1 where t: "call h v (snd kn) = Some (t, h1)" by auto
        then have "prefix h h1" by (rule frame)
        with Cons.prems have 1: "prefix hb h1" by auto
        show ?thesis
        proof (cases t)
          case (Inl e)
          with gp notarr True t show ?thesis by simp
        next
          case x: (Inr x)
          from 1 pa have "prefix hb (set_prop h1 pa (fst kn) x)" by (rule prefix_set_prop)
          then have "convert_fields_h call obj pa rest (set_prop h1 pa (fst kn) x) \<noteq> None"
            by (rule Cons.IH)
          with gp notarr True t x show ?thesis by simp
        qed
      qed
    qed
  qed
qed

lemma fromJS_h_returns:
  assumes fac: "\<And>nm ent fac. (nm, ent) \<in> set facTree \<Longrightarrow> factory_h ent = Some fac \<Longrightarrow>
                  keeps_store fac"
  shows "read_plain k h0 obj = Some p \<Longrightarrow> prefix h0 h \<Longrightarrow>
         fromJS_h k h obj facTree facName \<noteq> None"
proof (induction k arbitrary: h obj p facName)
  case 0
  then show ?case by simp
next
  case (Suc k)
  show ?case
  proof (cases "map_of facTree facName")
    case None
    then show ?thesis by simp
  next
    case ent: (Some ent)
    show ?thesis
    proof (cases "factory_h ent")
      case None
      with ent show ?thesis by simp
    next
      case f: (Some facRef)
      show ?thesis
      proof (cases "descriptor_h ent")
        case None
        with ent f show ?thesis by (simp add: R_merge_h_def alloc_def)
      next
        case (Some d)
        let ?h1 = "h @ [HObject (own_props_h h obj)]"
        have "convert_fields_h (\<lambda>h' v nm. fromJS_h k h' v facTree nm) obj (length h) d ?h1 \<noteq> None"
        proof (rule convert_fields_h_returns [where ?h0.0 = h0 and hb = h and k = k])
          show "prefix g g'" if "fromJS_h k g v facTree nm = Some (r, g')" for g v nm r g'
            using that by (rule fromJS_h_frame [rotated]) (rule fac)
          show "fromJS_h k g v facTree nm \<noteq> None"
            if "read_plain k h0 v = Some q" "prefix h0 g" for g v nm q
            using that by (rule Suc.IH)
          show "read_plain (Suc k) h0 obj = Some p" by (rule Suc.prems)
          show "prefix h0 h" by (rule Suc.prems)
          show "length h \<le> length h" by simp
          show "prefix h ?h1" by simp
        qed
        then obtain t h2
          where "convert_fields_h (\<lambda>h' v nm. fromJS_h k h' v facTree nm) obj (length h) d ?h1
                   = Some (t, h2)"
          by auto
        with ent f Some show ?thesis
          by (cases t) (simp_all add: R_merge_h_def alloc_def)
      qed
    qed
  qed
qed

text \<open>
  Claim C7. \<^verbatim>\<open>fromJS\<close> never writes to an object that existed when it was called: it
  writes to the working copy it allocated, and what it allocates afterwards. For a
  registry whose factories only allocate (as those of \<^verbatim>\<open>makeTypedFactory\<close> do),
  whether the call returns or throws, every object of the store before the call is
  unchanged after it, so the input reads as the same plain data, nested objects and
  arrays included. On an input that is plain data nested less deeply than the bound, the
  call does return or throw.
\<close>

theorem fromJS_never_mutates_input:
  assumes "\<forall>(nm, ent) \<in> set facTree. \<forall>fac. factory_h ent = Some fac \<longrightarrow> keeps_store fac"
  shows "(\<forall>r h'. fromJS_h n h obj facTree facName = Some (r, h') \<longrightarrow>
            prefix h h' \<and>
            (\<forall>k p. read_plain k h obj = Some p \<longrightarrow> read_plain k h' obj = Some p)) \<and>
         (\<forall>p. read_plain n h obj = Some p \<longrightarrow>
            (\<exists>r h'. fromJS_h n h obj facTree facName = Some (r, h')))"
proof -
  have keeps: "keeps_store fac" if "(nm, ent) \<in> set facTree" "factory_h ent = Some fac"
    for nm ent fac
    using assms that by blast
  have "prefix h h'" if "fromJS_h n h obj facTree facName = Some (r, h')" for r h'
    using that by (rule fromJS_h_frame [rotated]) (rule keeps)
  moreover have "\<exists>r h'. fromJS_h n h obj facTree facName = Some (r, h')"
    if "read_plain n h obj = Some p" for p
  proof -
    have "fromJS_h n h obj facTree facName \<noteq> None"
      using _ that
    proof (rule fromJS_h_returns)
      show "keeps_store fac" if "(nm, ent) \<in> set facTree" "factory_h ent = Some fac"
        for nm ent fac
        using that by (rule keeps)
      show "prefix h h" by simp
    qed
    then show ?thesis by auto
  qed
  ultimately show ?thesis by (auto intro: read_plain_prefix)
qed

theorem fromJS_never_mutates_input_witness:
  "fromJS_h 4 annHeap (HRef 2) factoryTree_h ''person'' =
     Some (Inr (HRef 8),
       annHeap @
       [HObject [(''name'', HStr ''Ann''), (''pet'', HRef 7)],
        HObject [(''name'', HStr ''Rex''), (''type'', HStr ''dog'')],
        HRecord (Some ''Pet'') [(''name'', HStr ''Rex''), (''type'', HStr ''dog'')],
        HArray [HRef 5],
        HList [HRef 5],
        HRecord (Some ''Person'')
          [(''name'', HStr ''Ann''), (''pet'', HRef 7), (''master'', HNull)]]) \<and>
   read_plain 4 annHeap (HRef 2) =
     Some (PObj [(''name'', PStr ''Ann''),
                 (''pet'', PArr [PObj [(''name'', PStr ''Rex''), (''type'', PStr ''dog'')]])]) \<and>
   read_plain 4
     (annHeap @
       [HObject [(''name'', HStr ''Ann''), (''pet'', HRef 7)],
        HObject [(''name'', HStr ''Rex''), (''type'', HStr ''dog'')],
        HRecord (Some ''Pet'') [(''name'', HStr ''Rex''), (''type'', HStr ''dog'')],
        HArray [HRef 5],
        HList [HRef 5],
        HRecord (Some ''Person'')
          [(''name'', HStr ''Ann''), (''pet'', HRef 7), (''master'', HNull)]]) (HRef 2) =
     Some (PObj [(''name'', PStr ''Ann''),
                 (''pet'', PArr [PObj [(''name'', PStr ''Rex''), (''type'', PStr ''dog'')]])])"
proof -
  let ?h' = "annHeap @
       [HObject [(''name'', HStr ''Ann''), (''pet'', HRef 7)],
        HObject [(''name'', HStr ''Rex''), (''type'', HStr ''dog'')],
        HRecord (Some ''Pet'') [(''name'', HStr ''Rex''), (''type'', HStr ''dog'')],
        HArray [HRef 5],
        HList [HRef 5],
        HRecord (Some ''Person'')
          [(''name'', HStr ''Ann''), (''pet'', HRef 7), (''master'', HNull)]]"
  have keeps: "\<forall>(nm, ent) \<in> set factoryTree_h. \<forall>fac. factory_h ent = Some fac \<longrightarrow>
      keeps_store fac"
    by (simp add: factoryTree_h_def makeTypedFactory_h_keeps_store)
  have run: "fromJS_h 4 annHeap (HRef 2) factoryTree_h ''person'' = Some (Inr (HRef 8), ?h')"
    by (simp add: eval_nat_numeral factoryTree_h_def annHeap_def R_merge_h_def alloc_def deref_def
        set_prop_def makeTypedFactory_h_def Record_new_h_def show_nat.simps digit_def)
  have rd: "read_plain 4 annHeap (HRef 2) =
     Some (PObj [(''name'', PStr ''Ann''),
                 (''pet'', PArr [PObj [(''name'', PStr ''Rex''), (''type'', PStr ''dog'')]])])"
    by (simp add: eval_nat_numeral annHeap_def deref_def)
  from fromJS_never_mutates_input [OF keeps, of 4 annHeap "HRef 2" "''person''"] run
  have "read_plain 4 annHeap (HRef 2) = Some p \<Longrightarrow> read_plain 4 ?h' (HRef 2) = Some p" for p
    by blast
  from this [OF rd] rd run show ?thesis
    by simp
qed

text \<open>
  With references an input can be cyclic, which plain data cannot: a person who is his
  own master. On such an input and the cyclic registry the nested calls never end,
  whatever the bound.
\<close>

lemma fromJS_h_cyclic_input_diverges:
  "prefix selfHeap h \<Longrightarrow> fromJS_h n h (HRef 0) factoryTree_h ''person'' = None"
proof (induction n arbitrary: h)
  case 0
  show ?case by simp
next
  case (Suc n)
  let ?self = "HObject [(''name'', HStr ''Ann''), (''master'', HRef 0)]"
  let ?h1 = "h @ [HObject [(''name'', HStr ''Ann''), (''master'', HRef 0)]]"
  from Suc.prems have d: "deref h 0 = Some ?self"
    by (rule deref_prefix) (simp add: selfHeap_def deref_def)
  then have d1: "deref ?h1 0 = Some ?self"
    by (rule deref_prefix [rotated]) simp
  from Suc.prems have "prefix selfHeap ?h1" by (rule prefix_prefix)
  then have "fromJS_h n ?h1 (HRef 0) factoryTree_h ''person'' = None" by (rule Suc.IH)
  with d d1 show ?case
    by (simp add: factoryTree_h_def R_merge_h_def alloc_def)
qed

text \<open>On the example the deserializer on the store and the deserializer on values yield
  the same record.\<close>

lemma models_agree_on_example:
  "\<exists>v h' p r. fromJS_h 4 annHeap (HRef 2) factoryTree_h ''person'' = Some (Inr v, h') \<and>
     read_plain 4 annHeap (HRef 2) = Some p \<and>
     fromJS 4 p annTree ''person'' = Some (Inr r) \<and>
     read_val 4 h' v = Some r"
  by (simp add: eval_nat_numeral factoryTree_h_def annHeap_def R_merge_h_def alloc_def deref_def
        set_prop_def makeTypedFactory_h_def Record_new_h_def show_nat.simps digit_def
        annTree_def R_merge_def makeTypedFactory_def Record_new_def)

end
